theory Spec2Isabelle
  imports Complex_Main "HOL-Library.AList"
begin

section \<open>Article tracker: the record store and its statistics\<close>

text \<open>
  A shallow embedding of \<^verbatim>\<open>main.py\<close>. Python's unbounded integers are \<open>int\<close>.
  Python's floats are read as the real numbers they approximate, so \<open>/\<close>, \<open>*\<close> and the
  comparisons below are exact; rounding is outside this development. A \<^verbatim>\<open>dict\<close> is an
  association list in insertion order, whose keys are distinct. An exception is a value of
  \<open>py_error\<close>, returned on the left of a sum.
\<close>

subsection \<open>Exceptions and dictionaries\<close>

datatype py_error =
    FileNotFoundError
  | OSError
  | ValueError_unpack nat
  | ValueError_strptime string
  | ValueError_int string
  | ValueError_str_digits
  | ValueError_percentile
  | UnicodeDecodeError
  | OverflowError
  | IndexError
  | StatisticsError

type_synonym ('k, 'v) dict = "('k \<times> 'v) list"

text \<open>\<^verbatim>\<open>k in d\<close>, \<^verbatim>\<open>d.get(k, default)\<close> and \<^verbatim>\<open>d[k] = v\<close>: an assignment to a key that is
  present keeps the key's position, a new key goes to the end.\<close>

definition dict_contains :: "('k, 'v) dict \<Rightarrow> 'k \<Rightarrow> bool" where
  "dict_contains d k = (map_of d k \<noteq> None)"

definition dict_get :: "('k, 'v) dict \<Rightarrow> 'k \<Rightarrow> 'v \<Rightarrow> 'v" where
  "dict_get d k dflt = (case map_of d k of None \<Rightarrow> dflt | Some v \<Rightarrow> v)"

definition dict_setitem :: "('k, 'v) dict \<Rightarrow> 'k \<Rightarrow> 'v \<Rightarrow> ('k, 'v) dict" where
  "dict_setitem d k v = AList.update k v d"

text \<open>\<^verbatim>\<open>d[k]\<close> on a \<^verbatim>\<open>defaultdict\<close>: a missing key is first inserted with the default
  value, so the read returns the value and the dictionary after the read.\<close>

definition defaultdict_getitem ::
  "'v \<Rightarrow> ('k, 'v) dict \<Rightarrow> 'k \<Rightarrow> 'v \<times> ('k, 'v) dict" where
  "defaultdict_getitem dflt d k =
     (case map_of d k of
        Some v \<Rightarrow> (v, d)
      | None \<Rightarrow> (dflt, dict_setitem d k dflt))"

subsection \<open>Statistics engine\<close>

text \<open>\<^verbatim>\<open>statistics.mean\<close> and \<^verbatim>\<open>statistics.stdev\<close> of the standard library: the mean
  raises on an empty sample, the sample standard deviation (divisor \<open>n - 1\<close>) on fewer than
  two points.\<close>

definition statistics_mean :: "int list \<Rightarrow> py_error + real" where
  "statistics_mean data =
     (if data = [] then Inl StatisticsError
      else Inr (real_of_int (sum_list data) / real (length data)))"

definition statistics_stdev :: "int list \<Rightarrow> py_error + real" where
  "statistics_stdev data =
     (if length data < 2 then Inl StatisticsError
      else (let m = real_of_int (sum_list data) / real (length data);
                ss = (\<Sum>x\<leftarrow>data. (real_of_int x - m)\<^sup>2)
            in Inr (sqrt (ss / real (length data - 1)))))"

definition calculate_coefficient_of_variation :: "int list \<Rightarrow> py_error + real" where
  "calculate_coefficient_of_variation data =
     (if length data < 2 then Inr 0
      else (case statistics_mean data of
              Inl e \<Rightarrow> Inl e
            | Inr mean \<Rightarrow>
               (case statistics_stdev data of
                  Inl e \<Rightarrow> Inl e
                | Inr std_dev \<Rightarrow> if mean = 0 then Inr 0 else Inr (std_dev / mean))))"

text \<open>\<^verbatim>\<open>numpy.percentile(data, q)\<close> with numpy's default method, \<^verbatim>\<open>linear\<close>: the sample is
  sorted, the virtual index is \<open>(n - 1) * q / 100\<close>, and the result interpolates between the
  elements at its floor and at the next rank (clipped to the last one). A \<open>q\<close> outside
  \<open>[0, 100]\<close> raises \<^verbatim>\<open>ValueError\<close>; an empty sample has no percentile (numpy gives
  \<^verbatim>\<open>nan\<close> or raises, by version), which is the \<open>IndexError\<close> branch here.\<close>

definition np_percentile :: "int list \<Rightarrow> real \<Rightarrow> py_error + real" where
  "np_percentile data q =
     (if q < 0 \<or> 100 < q then Inl ValueError_percentile
      else if data = [] then Inl IndexError
      else (let a = sort data;
                n = length a;
                virtual_index = real (n - 1) * (q / 100);
                previous = nat \<lfloor>virtual_index\<rfloor>;
                next_index = min (previous + 1) (n - 1);
                gamma = virtual_index - real previous;
                lo = real_of_int (a ! previous);
                hi = real_of_int (a ! next_index)
            in Inr (lo + (hi - lo) * gamma)))"

text \<open>The reading of "linear interpolation between closest ranks" that the quartiles
  are compared with: at the fractional rank \<open>h = (n - 1) * p\<close> of the sorted sample \<open>s\<close>,
  the value between \<open>s ! \<lfloor>h\<rfloor>\<close> and its successor.\<close>

definition closest_rank_interpolation :: "int list \<Rightarrow> real \<Rightarrow> real" where
  "closest_rank_interpolation s p =
     (let h = real (length s - 1) * p; k = nat \<lfloor>h\<rfloor>
      in real_of_int (s ! k) + (h - real k) * (real_of_int (s ! (k + 1)) - real_of_int (s ! k)))"

definition calculate_interquartile_range :: "int list \<Rightarrow> py_error + (real \<times> real \<times> real)" where
  "calculate_interquartile_range data =
     (if length data < 4 then Inr (0, 0, 0)
      else (case np_percentile data 25 of
              Inl e \<Rightarrow> Inl e
            | Inr q1 \<Rightarrow>
               (case np_percentile data 75 of
                  Inl e \<Rightarrow> Inl e
                | Inr q3 \<Rightarrow> Inr (q1, q3, q3 - q1))))"

text \<open>\<^verbatim>\<open>Counter(data)\<close> counts in first-occurrence order. \<^verbatim>\<open>most_common(1)\<close> is
  \<^verbatim>\<open>heapq.nlargest(1, items, key=count)\<close>, which is \<^verbatim>\<open>max\<close> over the items: the first
  item with the largest count, or the empty list for an empty counter.\<close>

definition counter_add :: "(int, nat) dict \<Rightarrow> int \<Rightarrow> (int, nat) dict" where
  "counter_add c x = dict_setitem c x (dict_get c x 0 + 1)"

definition Counter :: "int list \<Rightarrow> (int, nat) dict" where
  "Counter data = foldl counter_add [] data"

definition max_by_count :: "(int \<times> nat) \<Rightarrow> (int \<times> nat) list \<Rightarrow> (int \<times> nat)" where
  "max_by_count x xs = foldl (\<lambda>best y. if snd best < snd y then y else best) x xs"

definition most_common_1 :: "(int, nat) dict \<Rightarrow> (int \<times> nat) list" where
  "most_common_1 c = (case c of [] \<Rightarrow> [] | x # xs \<Rightarrow> [max_by_count x xs])"

definition check_frequency_distribution :: "int list \<Rightarrow> int \<Rightarrow> py_error + (bool \<times> int)" where
  "check_frequency_distribution data count =
     (case most_common_1 (Counter data) of
        [] \<Rightarrow> Inl IndexError
      | (most_common_count, _) # _ \<Rightarrow> Inr (count = most_common_count, most_common_count))"

subsection \<open>Anomaly classifier\<close>

text \<open>The decision of \<^verbatim>\<open>check_article_count\<close> once the weekday average is known (the
  \<^verbatim>\<open>if\<close>/\<^verbatim>\<open>elif\<close>/\<^verbatim>\<open>else\<close> chain that ends the function).\<close>

definition classify :: "int \<Rightarrow> real \<Rightarrow> string \<times> real" where
  "classify count average =
     (if real_of_int count < 0.8 * average then (''under 80% of the average'', average)
      else if real_of_int count > average then (''above the average'', average)
      else (''within 80% of the average'', average))"


text \<open>The second and third phase of \<^verbatim>\<open>submit_data\<close> (from "Phase 2" to the last
  "Result" dialog), as a function of the six-month sample and the submitted count. The
  label receives the coefficient of variation and one "Result" dialog is shown; the four
  dialogs are told apart by constructor, each carrying the numbers its text prints. An
  empty sample shows nothing.\<close>

datatype result_dialog =
    Below_first_quartile real
  | Within_interquartile_range real real
  | Matches_most_frequent int
  | Does_not_match_most_frequent int

definition submit_data_analysis ::
  "int list \<Rightarrow> int \<Rightarrow> py_error + (real \<times> result_dialog) option" where
  "submit_data_analysis six_months_data article_count =
     (if length six_months_data > 0 then
        (case calculate_coefficient_of_variation six_months_data of
           Inl e \<Rightarrow> Inl e
         | Inr coef_variation \<Rightarrow>
            (if coef_variation > 0.2 then
               (case calculate_interquartile_range six_months_data of
                  Inl e \<Rightarrow> Inl e
                | Inr (q1, q3, iqr) \<Rightarrow>
                   (if real_of_int article_count < q1
                    then Inr (Some (coef_variation, Below_first_quartile q1))
                    else Inr (Some (coef_variation, Within_interquartile_range q1 q3))))
             else
               (case check_frequency_distribution six_months_data article_count of
                  Inl e \<Rightarrow> Inl e
                | Inr (is_most_frequent, most_common_count) \<Rightarrow>
                   (if is_most_frequent
                    then Inr (Some (coef_variation, Matches_most_frequent most_common_count))
                    else Inr (Some (coef_variation,
                                    Does_not_match_most_frequent most_common_count))))))
      else Inr None)"

subsection \<open>Calendar dates\<close>

text \<open>A \<^verbatim>\<open>datetime.date\<close> is identified with its proleptic Gregorian ordinal
  (\<^verbatim>\<open>date.toordinal()\<close>: day 1 is 0001-01-01, the last day 9999-12-31 is 3652059); dates
  compare as their ordinals do. \<^verbatim>\<open>date - timedelta(days=n)\<close> raises
  \<^verbatim>\<open>OverflowError\<close> when the result leaves that range, and \<^verbatim>\<open>weekday()\<close> is
  \<open>(ordinal + 6) mod 7\<close>, Monday being 0.\<close>

datatype date = Date (toordinal: int)

definition MAXORDINAL :: int where
  "MAXORDINAL = 3652059"

definition valid_date :: "date \<Rightarrow> bool" where
  "valid_date d = (1 \<le> toordinal d \<and> toordinal d \<le> MAXORDINAL)"

definition date_sub_days :: "date \<Rightarrow> int \<Rightarrow> py_error + date" where
  "date_sub_days d n =
     (let ord = toordinal d - n
      in if 0 < ord \<and> ord \<le> MAXORDINAL then Inr (Date ord) else Inl OverflowError)"

definition weekday :: "date \<Rightarrow> int" where
  "weekday d = (toordinal d + 6) mod 7"

subsection \<open>Record store and weekday analyzer\<close>

text \<open>\<^verbatim>\<open>historical_data\<close> is a \<^verbatim>\<open>defaultdict(dict)\<close> from dates to dictionaries from
  diary names to counts. The functions that read it take the store and the clock's date
  (\<^verbatim>\<open>datetime.now().date()\<close>) as arguments and return the store next to their result.\<close>

type_synonym diaries = "(string, int) dict"
type_synonym store = "(date, diaries) dict"

text \<open>\<^verbatim>\<open>weekday_data[weekday].append(count)\<close> on the local \<^verbatim>\<open>defaultdict(list)\<close>.\<close>

definition weekday_data_append :: "(int, int list) dict \<Rightarrow> int \<Rightarrow> int \<Rightarrow> (int, int list) dict" where
  "weekday_data_append weekday_data wd count =
     (case defaultdict_getitem [] weekday_data wd of
        (counts, weekday_data') \<Rightarrow> dict_setitem weekday_data' wd (counts @ [count]))"

text \<open>The loop of \<^verbatim>\<open>calculate_weekday_averages\<close>; the \<^verbatim>\<open>in\<close> test and the read of
  \<^verbatim>\<open>diaries[diary_name]\<close> are one lookup.\<close>

definition weekday_data_step ::
  "date \<Rightarrow> string \<Rightarrow> (int, int list) dict \<Rightarrow> date \<times> diaries \<Rightarrow> (int, int list) dict" where
  "weekday_data_step six_months_ago diary_name weekday_data item =
     (case item of (d, ds) \<Rightarrow>
        (if toordinal d \<ge> toordinal six_months_ago then
           (case map_of ds diary_name of
              Some count \<Rightarrow> weekday_data_append weekday_data (weekday d) count
            | None \<Rightarrow> weekday_data)
         else weekday_data))"

definition average_or_zero :: "int list \<Rightarrow> real" where
  "average_or_zero counts =
     (if counts \<noteq> [] then real_of_int (sum_list counts) / real (length counts) else 0)"

definition calculate_weekday_averages ::
  "store \<Rightarrow> date \<Rightarrow> string \<Rightarrow> (py_error + (int, real) dict) \<times> store" where
  "calculate_weekday_averages historical_data now diary_name =
     (case date_sub_days now 180 of
        Inl e \<Rightarrow> (Inl e, historical_data)
      | Inr six_months_ago \<Rightarrow>
         (let weekday_data = foldl (weekday_data_step six_months_ago diary_name) [] historical_data
          in (Inr (map (\<lambda>(day, counts). (day, average_or_zero counts)) weekday_data),
              historical_data)))"

definition check_article_count ::
  "store \<Rightarrow> date \<Rightarrow> date \<Rightarrow> string \<Rightarrow> int \<Rightarrow> (py_error + (string \<times> real)) \<times> store" where
  "check_article_count historical_data now today diary_name count =
     (case calculate_weekday_averages historical_data now diary_name of
        (Inl e, historical_data') \<Rightarrow> (Inl e, historical_data')
      | (Inr weekday_averages, historical_data') \<Rightarrow>
          (Inr (classify count (dict_get weekday_averages (weekday today) 0)),
           historical_data'))"

text \<open>\<^verbatim>\<open>get_last_week_summary\<close>: the loop over \<^verbatim>\<open>range(7)\<close>. The store is indexed only
  after the membership test, and the index is the \<^verbatim>\<open>defaultdict\<close>'s.\<close>

fun last_week_loop ::
  "date \<Rightarrow> string \<Rightarrow> int list \<Rightarrow> (date, int) dict \<Rightarrow> store
     \<Rightarrow> (py_error + (date, int) dict) \<times> store" where
  "last_week_loop date diary_name [] last_week_data historical_data =
     (Inr last_week_data, historical_data)"
| "last_week_loop date diary_name (i # rest) last_week_data historical_data =
     (case date_sub_days date i of
        Inl e \<Rightarrow> (Inl e, historical_data)
      | Inr day \<Rightarrow>
         (if dict_contains historical_data day then
            (case defaultdict_getitem [] historical_data day of
               (ds, historical_data') \<Rightarrow>
                 last_week_loop date diary_name rest
                   (dict_setitem last_week_data day (dict_get ds diary_name 0)) historical_data')
          else last_week_loop date diary_name rest
                 (dict_setitem last_week_data day 0) historical_data))"

definition get_last_week_summary ::
  "store \<Rightarrow> date \<Rightarrow> string \<Rightarrow> (py_error + (date, int) dict) \<times> store" where
  "get_last_week_summary historical_data date diary_name =
     last_week_loop date diary_name [0, 1, 2, 3, 4, 5, 6] [] historical_data"

subsection \<open>Strings\<close>

text \<open>A Python \<^verbatim>\<open>str\<close> is a \<open>string\<close> whose characters are code points below 256.
  \<^verbatim>\<open>str.strip()\<close> removes the white space of \<^verbatim>\<open>str.isspace\<close> at both ends: the code
  points 9 to 13, 28 to 32, 133 and 160. \<^verbatim>\<open>str.split(',')\<close> cuts at every comma and
  keeps empty fields.\<close>

definition is_space :: "char \<Rightarrow> bool" where
  "is_space c =
     (let n = (of_char c :: nat)
      in (9 \<le> n \<and> n \<le> 13) \<or> (28 \<le> n \<and> n \<le> 32) \<or> n = 133 \<or> n = 160)"

definition strip :: "string \<Rightarrow> string" where
  "strip s = rev (dropWhile is_space (rev (dropWhile is_space s)))"

fun split_on :: "char \<Rightarrow> string \<Rightarrow> string list" where
  "split_on sep [] = [[]]"
| "split_on sep (c # cs) =
     (if c = sep then [] # split_on sep cs
      else (c # hd (split_on sep cs)) # tl (split_on sep cs))"

definition is_digit :: "char \<Rightarrow> bool" where
  "is_digit c = (48 \<le> (of_char c :: nat) \<and> (of_char c :: nat) \<le> 57)"

definition digit_val :: "char \<Rightarrow> nat" where
  "digit_val c = of_char c - 48"

definition digit_char :: "nat \<Rightarrow> char" where
  "digit_char n = char_of (48 + n)"

definition digits_value :: "string \<Rightarrow> nat" where
  "digits_value ds = foldl (\<lambda>acc c. 10 * acc + digit_val c) 0 ds"

text \<open>\<^verbatim>\<open>int(s)\<close> in base 10: white space around is dropped, one sign may lead, and the
  rest is decimal digits, with single underscores allowed between digits. More than
  \<^verbatim>\<open>sys.int_info.default_max_str_digits\<close> digits raise \<^verbatim>\<open>ValueError\<close>, in \<^verbatim>\<open>int(s)\<close> and
  in \<^verbatim>\<open>str(n)\<close> alike.\<close>

definition int_max_str_digits :: nat where
  "int_max_str_digits = 4300"

fun int_body_ok :: "string \<Rightarrow> bool" where
  "int_body_ok [] = False"
| "int_body_ok [c] = is_digit c"
| "int_body_ok (c # d # cs) =
     (is_digit c \<and> (if d = CHR ''_'' then int_body_ok cs else int_body_ok (d # cs)))"

definition py_int :: "string \<Rightarrow> py_error + int" where
  "py_int s =
     (let t = strip s;
          sign = (if t \<noteq> [] \<and> hd t = CHR ''-'' then - 1 else 1 :: int);
          body = (if t \<noteq> [] \<and> (hd t = CHR ''-'' \<or> hd t = CHR ''+'') then tl t else t);
          digits = filter (\<lambda>c. c \<noteq> CHR ''_'') body
      in if int_body_ok body \<and> length digits \<le> int_max_str_digits
         then Inr (sign * int (digits_value digits))
         else Inl (ValueError_int s))"

text \<open>\<^verbatim>\<open>str(n)\<close> of an integer, as the f-string prints the count: \<open>int_text\<close> is the
  decimal text, \<open>str_int\<close> the conversion with its limit on the number of digits.\<close>

fun str_nat_fuel :: "nat \<Rightarrow> nat \<Rightarrow> string" where
  "str_nat_fuel 0 n = [digit_char (n mod 10)]"
| "str_nat_fuel (Suc k) n =
     (if n < 10 then [digit_char n] else str_nat_fuel k (n div 10) @ [digit_char (n mod 10)])"

definition str_nat :: "nat \<Rightarrow> string" where
  "str_nat n = str_nat_fuel n n"

definition int_text :: "int \<Rightarrow> string" where
  "int_text i = (if i < 0 then CHR ''-'' # str_nat (nat (- i)) else str_nat (nat i))"

definition str_int :: "int \<Rightarrow> py_error + string" where
  "str_int i =
     (if length (str_nat (nat \<bar>i\<bar>)) > int_max_str_digits then Inl ValueError_str_digits
      else Inr (int_text i))"

definition zero_pad :: "nat \<Rightarrow> string \<Rightarrow> string" where
  "zero_pad w s = replicate (w - length s) (CHR ''0'') @ s"

subsection \<open>Year, month and day of a date\<close>

text \<open>The proleptic Gregorian calendar of the \<^verbatim>\<open>datetime\<close> module: \<^verbatim>\<open>_is_leap\<close>,
  \<^verbatim>\<open>_days_before_year\<close>, \<^verbatim>\<open>_days_in_month\<close>, \<^verbatim>\<open>_days_before_month\<close>, \<^verbatim>\<open>_ymd2ord\<close> and
  \<^verbatim>\<open>_ord2ymd\<close>, with their tables.\<close>

definition is_leap :: "int \<Rightarrow> bool" where
  "is_leap y = (y mod 4 = 0 \<and> (y mod 100 \<noteq> 0 \<or> y mod 400 = 0))"

definition days_before_year :: "int \<Rightarrow> int" where
  "days_before_year year = (let y = year - 1 in y * 365 + y div 4 - y div 100 + y div 400)"

definition DAYS_IN_MONTH :: "int list" where
  "DAYS_IN_MONTH = [- 1, 31, 28, 31, 30, 31, 30, 31, 31, 30, 31, 30, 31]"

definition DAYS_BEFORE_MONTH :: "int list" where
  "DAYS_BEFORE_MONTH = [- 1, 0, 31, 59, 90, 120, 151, 181, 212, 243, 273, 304, 334]"

definition days_in_month :: "int \<Rightarrow> int \<Rightarrow> int" where
  "days_in_month year month =
     (if month = 2 \<and> is_leap year then 29 else DAYS_IN_MONTH ! nat month)"

definition days_before_month :: "int \<Rightarrow> int \<Rightarrow> int" where
  "days_before_month year month =
     DAYS_BEFORE_MONTH ! nat month + (if month > 2 \<and> is_leap year then 1 else 0)"

definition ymd2ord :: "int \<Rightarrow> int \<Rightarrow> int \<Rightarrow> int" where
  "ymd2ord year month day = days_before_year year + days_before_month year month + day"

definition ord2ymd :: "int \<Rightarrow> int \<times> int \<times> int" where
  "ord2ymd ordinal =
     (let n = ordinal - 1;
          n400 = n div 146097; n = n mod 146097;
          year = n400 * 400 + 1;
          n100 = n div 36524; n = n mod 36524;
          n4 = n div 1461; n = n mod 1461;
          n1 = n div 365; n = n mod 365;
          year = year + n100 * 100 + n4 * 4 + n1
      in if n1 = 4 \<or> n100 = 4 then (year - 1, 12, 31)
         else (let leapyear = (n1 = 3 \<and> (n4 \<noteq> 24 \<or> n100 = 3));
                   month = (n + 50) div 32;
                   preceding = DAYS_BEFORE_MONTH ! nat month
                               + (if month > 2 \<and> leapyear then 1 else 0)
               in if preceding > n
                  then (let month = month - 1;
                            preceding = preceding - (DAYS_IN_MONTH ! nat month
                                          + (if month = 2 \<and> leapyear then 1 else 0))
                        in (year, month, n - preceding + 1))
                  else (year, month, n - preceding + 1)))"

text \<open>\<^verbatim>\<open>date(year, month, day)\<close> checks its fields and raises \<^verbatim>\<open>ValueError\<close>.\<close>

definition check_date_fields :: "int \<Rightarrow> int \<Rightarrow> int \<Rightarrow> bool" where
  "check_date_fields year month day =
     (1 \<le> year \<and> year \<le> 9999 \<and> 1 \<le> month \<and> month \<le> 12
      \<and> 1 \<le> day \<and> day \<le> days_in_month year month)"

text \<open>\<^verbatim>\<open>date.year\<close>, and \<^verbatim>\<open>date.strftime('%Y-%m-%d')\<close>, which is the C library's
  \<^verbatim>\<open>strftime\<close>: \<^verbatim>\<open>%Y\<close> is the year in decimal with no padding, so it has fewer than
  four digits before year 1000; \<^verbatim>\<open>%m\<close> and \<^verbatim>\<open>%d\<close> are zero-padded to two digits.\<close>

definition date_year :: "date \<Rightarrow> int" where
  "date_year d = (case ord2ymd (toordinal d) of (year, month, day) \<Rightarrow> year)"

definition strftime_ymd :: "date \<Rightarrow> string" where
  "strftime_ymd d =
     (case ord2ymd (toordinal d) of
        (year, month, day) \<Rightarrow>
          str_nat (nat year) @ ''-'' @ zero_pad 2 (str_nat (nat month)) @ ''-''
          @ zero_pad 2 (str_nat (nat day)))"

text \<open>\<^verbatim>\<open>datetime.strptime(s, "%Y-%m-%d").date()\<close>. The format is a regular expression:
  \<^verbatim>\<open>%Y\<close> is four digits, \<^verbatim>\<open>%m\<close> is \<^verbatim>\<open>1[0-2]|0[1-9]|[1-9]\<close> and \<^verbatim>\<open>%d\<close> is
  \<^verbatim>\<open>3[01]|[12]\d|0[1-9]|[1-9]| [1-9]\<close>, alternatives tried in this order with
  backtracking. The match must reach the end of the string and the fields must be a date.
  The two matchers list the alternatives that match at the head of the string, in order,
  each with its value and the rest of the string.\<close>

definition is_digit_in :: "char \<Rightarrow> nat \<Rightarrow> nat \<Rightarrow> bool" where
  "is_digit_in c lo hi = (is_digit c \<and> lo \<le> digit_val c \<and> digit_val c \<le> hi)"

definition match_month :: "string \<Rightarrow> (int \<times> string) list" where
  "match_month s =
     (case s of
        [] \<Rightarrow> []
      | [c1] \<Rightarrow> (if is_digit_in c1 1 9 then [(int (digit_val c1), [])] else [])
      | c1 # c2 # r \<Rightarrow>
          (if c1 = CHR ''1'' \<and> is_digit_in c2 0 2 then [(10 + int (digit_val c2), r)] else [])
          @ (if c1 = CHR ''0'' \<and> is_digit_in c2 1 9 then [(int (digit_val c2), r)] else [])
          @ (if is_digit_in c1 1 9 then [(int (digit_val c1), c2 # r)] else []))"

definition match_day :: "string \<Rightarrow> (int \<times> string) list" where
  "match_day s =
     (case s of
        [] \<Rightarrow> []
      | [c1] \<Rightarrow> (if is_digit_in c1 1 9 then [(int (digit_val c1), [])] else [])
      | c1 # c2 # r \<Rightarrow>
          (if c1 = CHR ''3'' \<and> is_digit_in c2 0 1 then [(30 + int (digit_val c2), r)] else [])
          @ (if is_digit_in c1 1 2 \<and> is_digit c2
             then [(10 * int (digit_val c1) + int (digit_val c2), r)] else [])
          @ (if c1 = CHR ''0'' \<and> is_digit_in c2 1 9 then [(int (digit_val c2), r)] else [])
          @ (if is_digit_in c1 1 9 then [(int (digit_val c1), c2 # r)] else [])
          @ (if c1 = CHR '' '' \<and> is_digit_in c2 1 9 then [(int (digit_val c2), r)] else []))"

text \<open>The first way to match month, hyphen and day: a month alternative counts when a
  hyphen follows it and some day alternative matches after the hyphen; the day is then the
  first day alternative.\<close>

definition match_month_day :: "string \<Rightarrow> (int \<times> int \<times> string) list" where
  "match_month_day s =
     concat (map (\<lambda>(month, r).
                    (case r of
                       [] \<Rightarrow> []
                     | c # r' \<Rightarrow>
                        (if c = CHR ''-'' then
                           (case match_day r' of
                              [] \<Rightarrow> []
                            | (day, rest) # _ \<Rightarrow> [(month, day, rest)])
                         else [])))
              (match_month s))"

definition strptime_ymd :: "string \<Rightarrow> py_error + date" where
  "strptime_ymd s =
     (case s of
        y1 # y2 # y3 # y4 # h # r \<Rightarrow>
          (if is_digit y1 \<and> is_digit y2 \<and> is_digit y3 \<and> is_digit y4 \<and> h = CHR ''-'' then
             (case match_month_day r of
                (month, day, rest) # _ \<Rightarrow>
                  (let year = int (digits_value [y1, y2, y3, y4])
                   in if rest = [] \<and> check_date_fields year month day
                      then Inr (Date (ymd2ord year month day))
                      else Inl (ValueError_strptime s))
              | [] \<Rightarrow> Inl (ValueError_strptime s))
           else Inl (ValueError_strptime s))
      | _ \<Rightarrow> Inl (ValueError_strptime s))"

subsection \<open>Loading and saving the backing file\<close>

text \<open>A text file is read with universal newlines: \<^verbatim>\<open>\r\n\<close> and a lone \<^verbatim>\<open>\r\<close> become
  \<^verbatim>\<open>\n\<close>. Iterating over the file yields its lines, each with its \<^verbatim>\<open>\n\<close> except perhaps
  the last.\<close>

fun universal_newlines :: "string \<Rightarrow> string" where
  "universal_newlines [] = []"
| "universal_newlines [c] = [if c = CHR 0x0D then CHR 0x0A else c]"
| "universal_newlines (c # d # cs) =
     (if c = CHR 0x0D
      then (if d = CHR 0x0A then CHR 0x0A # universal_newlines cs
            else CHR 0x0A # universal_newlines (d # cs))
      else c # universal_newlines (d # cs))"

fun file_lines :: "string \<Rightarrow> string list" where
  "file_lines [] = []"
| "file_lines (c # cs) =
     (if c = CHR 0x0A then [c] # file_lines cs
      else (case file_lines cs of
              [] \<Rightarrow> [[c]]
            | l # ls \<Rightarrow> (c # l) # ls))"

text \<open>\<^verbatim>\<open>historical_data[date][diary_name] = count\<close>: the outer index is the
  \<^verbatim>\<open>defaultdict\<close>'s, the inner dictionary is updated in place.\<close>

definition store_setitem :: "store \<Rightarrow> date \<Rightarrow> string \<Rightarrow> int \<Rightarrow> store" where
  "store_setitem historical_data date diary_name count =
     (case defaultdict_getitem [] historical_data date of
        (ds, historical_data') \<Rightarrow>
          dict_setitem historical_data' date (dict_setitem ds diary_name count))"

text \<open>One line of the file: the body of the loop of \<^verbatim>\<open>load_data_from_file\<close> up to the
  assignment. Unpacking anything but three fields raises \<^verbatim>\<open>ValueError\<close>.\<close>

definition parse_line :: "string \<Rightarrow> py_error + (date \<times> int \<times> string)" where
  "parse_line line =
     (case split_on (CHR '','') (strip line) of
        [date_str, count_str, diary_name] \<Rightarrow>
          (case strptime_ymd date_str of
             Inl e \<Rightarrow> Inl e
           | Inr date \<Rightarrow>
              (case py_int count_str of
                 Inl e \<Rightarrow> Inl e
               | Inr article_count \<Rightarrow> Inr (date, article_count, diary_name)))
      | fields \<Rightarrow> Inl (ValueError_unpack (length fields)))"

text \<open>The loop over the lines: the first line that raises ends it, with the store as the
  lines before it left it.\<close>

fun load_lines :: "store \<Rightarrow> string list \<Rightarrow> store \<times> py_error option" where
  "load_lines historical_data [] = (historical_data, None)"
| "load_lines historical_data (line # rest) =
     (case parse_line line of
        Inl e \<Rightarrow> (historical_data, Some e)
      | Inr (date, article_count, diary_name) \<Rightarrow>
          load_lines (store_setitem historical_data date diary_name article_count) rest)"

text \<open>What \<^verbatim>\<open>open(filename, 'r')\<close> finds: no file, another failure to open, or a file
  that opens. Reading an open file can still raise (\<^verbatim>\<open>UnicodeDecodeError\<close> on bytes
  that do not decode, \<^verbatim>\<open>OSError\<close>): \<open>Opened text err\<close> is a file whose iteration
  yields the lines of \<open>text\<close> and then ends (\<open>err = None\<close>) or raises \<open>err\<close>; the
  file is decoded in blocks, so a small file that does not decode yields no line. The
  function shows a line printed on success and an error dialog (title and message)
  otherwise. The text of an exception, \<^verbatim>\<open>{e}\<close>, is the interpreter's and is a
  parameter, \<open>str_of\<close>.\<close>

datatype open_result = No_such_file | Open_failed | Opened string "py_error option"

datatype load_output = Printed string | Showerror string string

definition load_data_from_file ::
  "(py_error \<Rightarrow> string) \<Rightarrow> store \<Rightarrow> string \<Rightarrow> open_result \<Rightarrow> store \<times> load_output" where
  "load_data_from_file str_of historical_data filename file =
     (let historical_data = [] in
      (case file of
         No_such_file \<Rightarrow>
           (historical_data, Showerror ''Error'' (''File '' @ filename @ '' not found.''))
       | Open_failed \<Rightarrow>
           (historical_data,
            Showerror ''Error'' (''Failed to load data from file: '' @ str_of OSError))
       | Opened content read_error \<Rightarrow>
           (case load_lines historical_data (file_lines (universal_newlines content)) of
              (historical_data', None) \<Rightarrow>
                (case read_error of
                   None \<Rightarrow>
                     (historical_data',
                      Printed (''Data successfully loaded from '' @ filename @ ''.''))
                 | Some e \<Rightarrow>
                     (historical_data',
                      Showerror ''Error'' (''Failed to load data from file: '' @ str_of e)))
            | (historical_data', Some e) \<Rightarrow>
                (historical_data',
                 Showerror ''Error'' (''Failed to load data from file: '' @ str_of e)))))"

text \<open>The save at the end of \<^verbatim>\<open>submit_data\<close>: the file is opened with \<^verbatim>\<open>'w'\<close>, and the
  two nested loops write one line for every date and diary, in the order of the
  dictionaries. The result is the text written, which is the whole content of the file
  afterwards, and the exception that ended the loops, if any (a count too long to print).\<close>

definition save_line :: "date \<Rightarrow> string \<Rightarrow> int \<Rightarrow> py_error + string" where
  "save_line date diary count =
     (case str_int count of
        Inl e \<Rightarrow> Inl e
      | Inr count_str \<Rightarrow>
          Inr (strftime_ymd date @ '','' @ count_str @ '','' @ diary @ [CHR 0x0A]))"

fun save_diaries :: "date \<Rightarrow> diaries \<Rightarrow> string \<Rightarrow> string \<times> py_error option" where
  "save_diaries date [] written = (written, None)"
| "save_diaries date ((diary, count) # rest) written =
     (case save_line date diary count of
        Inl e \<Rightarrow> (written, Some e)
      | Inr line \<Rightarrow> save_diaries date rest (written @ line))"

fun save_dates :: "store \<Rightarrow> string \<Rightarrow> string \<times> py_error option" where
  "save_dates [] written = (written, None)"
| "save_dates ((date, ds) # rest) written =
     (case save_diaries date ds written of
        (written', Some e) \<Rightarrow> (written', Some e)
      | (written', None) \<Rightarrow> save_dates rest written')"

definition submit_data_save :: "store \<Rightarrow> string \<times> py_error option" where
  "submit_data_save historical_data = save_dates historical_data []"

text \<open>The count stored for a date and a diary, if any: the mapping two stores are
  compared by.\<close>

definition store_lookup :: "store \<Rightarrow> date \<Rightarrow> string \<Rightarrow> int option" where
  "store_lookup s d diary_name =
     (case map_of s d of None \<Rightarrow> None | Some ds \<Rightarrow> map_of ds diary_name)"

subsection \<open>Properties the claims speak of\<close>

text \<open>The counts that qualify for a weekday: those of the records dated on or after
  \<open>since\<close> whose diaries contain the name, falling on that weekday, in store order.\<close>

definition qualifying_counts :: "store \<Rightarrow> string \<Rightarrow> date \<Rightarrow> int \<Rightarrow> int list" where
  "qualifying_counts s diary_name since wd =
     map (\<lambda>r. dict_get (snd r) diary_name 0)
       (filter (\<lambda>r. toordinal since \<le> toordinal (fst r) \<and> dict_contains (snd r) diary_name
                     \<and> weekday (fst r) = wd) s)"

text \<open>The count stored for a date and a diary, 0 when there is none.\<close>

definition stored_count :: "store \<Rightarrow> date \<Rightarrow> string \<Rightarrow> int" where
  "stored_count s d diary_name =
     (case map_of s d of None \<Rightarrow> 0 | Some ds \<Rightarrow> dict_get ds diary_name 0)"

text \<open>What a line of the file holds. It carries a record when it splits into exactly
  three fields of which the first parses as the date and the second as the count; it is
  malformed otherwise, and \<open>line_error\<close> is the exception it then raises. Of a list of
  records, \<open>records_lookup\<close> is the count of the last one for a date and a diary.\<close>

definition line_record :: "string \<Rightarrow> date \<times> string \<times> int \<Rightarrow> bool" where
  "line_record line r =
     (case split_on (CHR '','') (strip line) of
        [date_str, count_str, diary_name] \<Rightarrow>
          strptime_ymd date_str = Inr (fst r) \<and> py_int count_str = Inr (snd (snd r))
          \<and> diary_name = fst (snd r)
      | _ \<Rightarrow> False)"

definition malformed_line :: "string \<Rightarrow> bool" where
  "malformed_line line =
     (case split_on (CHR '','') (strip line) of
        [date_str, count_str, diary_name] \<Rightarrow>
          isl (strptime_ymd date_str) \<or> isl (py_int count_str)
      | _ \<Rightarrow> True)"


definition records_lookup :: "(date \<times> string \<times> int) list \<Rightarrow> date \<Rightarrow> string \<Rightarrow> int option" where
  "records_lookup rs d diary_name =
     map_of (rev (map (\<lambda>(d, n, c). ((d, n), c)) rs)) (d, diary_name)"

text \<open>What the round trip through the file needs of a store. A store is well formed when
  it is a dictionary of dictionaries (no key twice) whose keys are dates and whose counts
  are integers that \<^verbatim>\<open>int(s)\<close> can have produced, of at most \<open>int_max_str_digits\<close>
  digits. A date is written with a four-digit year from year 1000 on. A diary name
  survives the file when it has no comma, no line break, and does not end in white space:
  \<^verbatim>\<open>line.strip()\<close> removes trailing white space with the newline.\<close>

definition well_formed_store :: "store \<Rightarrow> bool" where
  "well_formed_store s =
     (distinct (map fst s)
      \<and> (\<forall>(d, ds) \<in> set s. valid_date d \<and> distinct (map fst ds)
            \<and> (\<forall>(n, c) \<in> set ds. \<bar>c\<bar> < 10 ^ int_max_str_digits)))"

definition years_from_1000 :: "store \<Rightarrow> bool" where
  "years_from_1000 s = (\<forall>(d, ds) \<in> set s. 1000 \<le> date_year d)"

definition diary_name_ok :: "string \<Rightarrow> bool" where
  "diary_name_ok n =
     (CHR '','' \<notin> set n \<and> CHR 0x0A \<notin> set n \<and> CHR 0x0D \<notin> set n
      \<and> (n = [] \<or> \<not> is_space (last n)))"

definition diary_names_ok :: "store \<Rightarrow> bool" where
  "diary_names_ok s = (\<forall>(d, ds) \<in> set s. \<forall>(n, c) \<in> set ds. diary_name_ok n)"

definition record_ok :: "date \<times> string \<times> int \<Rightarrow> bool" where
  "record_ok r =
     (case r of (d, n, c) \<Rightarrow>
        valid_date d \<and> 1000 \<le> date_year d \<and> diary_name_ok n
        \<and> \<bar>c\<bar> < 10 ^ int_max_str_digits)"

text \<open>The (date, diary, count) triples of a store, in the order of its dictionaries, the
  line of a triple and the text of a store: one line for every triple.\<close>

definition store_records :: "store \<Rightarrow> (date \<times> string \<times> int) list" where
  "store_records s = concat (map (\<lambda>(d, ds). map (\<lambda>(n, c). (d, n, c)) ds) s)"

definition record_line :: "date \<Rightarrow> string \<Rightarrow> int \<Rightarrow> string" where
  "record_line d n c = strftime_ymd d @ '','' @ int_text c @ '','' @ n @ [CHR 0x0A]"

definition store_text :: "store \<Rightarrow> string" where
  "store_text s = concat (map (\<lambda>(d, n, c). record_line d n c) (store_records s))"

text \<open>Month \<open>m\<close> and day \<open>d\<close> are the date that lies \<open>r\<close> days after the first of January
  of a year that is leap or not.\<close>

definition month_day_ok :: "bool \<Rightarrow> int \<Rightarrow> int \<Rightarrow> int \<Rightarrow> bool" where
  "month_day_ok leap r m d =
     (1 \<le> m \<and> m \<le> 12 \<and> 1 \<le> d
      \<and> d \<le> (if m = 2 \<and> leap then 29 else DAYS_IN_MONTH ! nat m)
      \<and> DAYS_BEFORE_MONTH ! nat m + (if m > 2 \<and> leap then 1 else 0) + d = r + 1)"

section \<open>Verification\<close>

subsection \<open>Statistics engine\<close>

text \<open>Claim C6. For every list of integers, \<^verbatim>\<open>calculate_coefficient_of_variation\<close> returns
  (it never raises): the result is 0 when the list has fewer than two elements or its mean
  is 0, and otherwise the sample standard deviation (divisor \<open>n - 1\<close>) divided by the mean.
  In particular it is 0 on \<open>[]\<close>, \<open>[5]\<close> and \<open>[0, 0, 0]\<close>.\<close>

theorem coefficient_of_variation_spec:
  "calculate_coefficient_of_variation data =
     Inr (let n = length data; mean = real_of_int (sum_list data) / real n
          in if n < 2 \<or> mean = 0 then 0
             else sqrt ((\<Sum>x\<leftarrow>data. (real_of_int x - mean)\<^sup>2) / real (n - 1)) / mean)
   \<and> calculate_coefficient_of_variation [] = Inr 0
   \<and> calculate_coefficient_of_variation [5] = Inr 0
   \<and> calculate_coefficient_of_variation [0, 0, 0] = Inr 0"
  by (auto simp: calculate_coefficient_of_variation_def statistics_mean_def
      statistics_stdev_def Let_def)

theorem coefficient_of_variation_witness:
  "calculate_coefficient_of_variation [1, 3, 5] = Inr (2 / 3)"
  using coefficient_of_variation_spec [of "[1, 3, 5]"]
  by (simp add: Let_def power2_eq_square)

lemma next_rank_in_range:
  assumes "4 \<le> n" "0 \<le> p" "p < 1"
  shows "min (nat \<lfloor>real (n - 1) * p\<rfloor> + 1) (n - 1) = nat \<lfloor>real (n - 1) * p\<rfloor> + 1"
proof -
  have "real (n - 1) * p < real (n - 1)" using assms by simp
  then have "\<lfloor>real (n - 1) * p\<rfloor> < int (n - 1)" by linarith
  then have "nat \<lfloor>real (n - 1) * p\<rfloor> < n - 1" using assms by linarith
  then show ?thesis by linarith
qed

lemma np_percentile_interpolation:
  assumes "4 \<le> length data" "0 \<le> q" "q < 100"
  shows "np_percentile data q = Inr (closest_rank_interpolation (sort data) (q / 100))"
proof -
  define n where "n = length data"
  define h where "h = real (n - 1) * (q / 100)"
  define k where "k = nat \<lfloor>h\<rfloor>"
  have m: "min (k + 1) (n - 1) = k + 1"
    unfolding k_def h_def using assms by (intro next_rank_in_range) (simp_all add: n_def)
  have ne: "data \<noteq> []" using assms by auto
  have "np_percentile data q =
          Inr (real_of_int (sort data ! k)
               + (real_of_int (sort data ! min (k + 1) (n - 1)) - real_of_int (sort data ! k))
                 * (h - real k))"
    unfolding np_percentile_def Let_def k_def h_def n_def using assms ne by simp
  also have "\<dots> = Inr (closest_rank_interpolation (sort data) (q / 100))"
    unfolding closest_rank_interpolation_def Let_def m
    by (simp add: k_def h_def n_def mult.commute)
  finally show ?thesis .
qed

text \<open>Claim C7. For every list of integers, \<^verbatim>\<open>calculate_interquartile_range\<close> returns
  \<open>(0, 0, 0)\<close> when the list has fewer than four elements, and otherwise \<open>(q1, q3, q3 - q1)\<close>
  with \<open>q1\<close> and \<open>q3\<close> the values at the fractional ranks \<open>(n - 1) / 4\<close> and
  \<open>3 (n - 1) / 4\<close> of the sorted list, interpolated linearly between the two closest ranks;
  on \<open>[1, 2, 3]\<close> it is \<open>(0, 0, 0)\<close> and on \<open>[1, 2, 3, 4]\<close> it gives 1.75 and 3.25.\<close>

theorem interquartile_range_spec:
  "calculate_interquartile_range data =
     (if length data < 4 then Inr (0, 0, 0)
      else (let q1 = closest_rank_interpolation (sort data) (1 / 4);
                q3 = closest_rank_interpolation (sort data) (3 / 4)
            in Inr (q1, q3, q3 - q1)))
   \<and> calculate_interquartile_range [1, 2, 3] = Inr (0, 0, 0)
   \<and> calculate_interquartile_range [1, 2, 3, 4] = Inr (7 / 4, 13 / 4, 3 / 2)"
proof (intro conjI)
  show "calculate_interquartile_range data =
     (if length data < 4 then Inr (0, 0, 0)
      else (let q1 = closest_rank_interpolation (sort data) (1 / 4);
                q3 = closest_rank_interpolation (sort data) (3 / 4)
            in Inr (q1, q3, q3 - q1)))"
  proof (cases "length data < 4")
    case True
    then show ?thesis by (simp add: calculate_interquartile_range_def)
  next
    case False
    then have n: "4 \<le> length data" by simp
    have q1: "np_percentile data 25 = Inr (closest_rank_interpolation (sort data) (1 / 4))"
      using np_percentile_interpolation [OF n, of 25] by simp
    have q3: "np_percentile data 75 = Inr (closest_rank_interpolation (sort data) (3 / 4))"
      using np_percentile_interpolation [OF n, of 75] by simp
    show ?thesis using False
      by (simp add: calculate_interquartile_range_def q1 q3 Let_def)
  qed
  show "calculate_interquartile_range [1, 2, 3] = Inr (0, 0, 0)"
    by (simp add: calculate_interquartile_range_def)
  show "calculate_interquartile_range [1, 2, 3, 4] = Inr (7 / 4, 13 / 4, 3 / 2)"
    by (simp add: calculate_interquartile_range_def np_percentile_def Let_def)
qed

theorem interquartile_range_witness:
  "calculate_interquartile_range [4, 1, 3, 2, 5] = Inr (2, 4, 2)"
  using interquartile_range_spec [of "[4, 1, 3, 2, 5]"]
  by (simp add: closest_rank_interpolation_def Let_def)

subsection \<open>Anomaly classifier\<close>

text \<open>Claim C3. For every integer count and every real average the status is
  "under 80% of the average" exactly when \<open>count < 0.8 * average\<close>, otherwise
  "above the average" exactly when \<open>count > average\<close>, otherwise "within 80% of the average";
  so 80 against 100 is within, 79 is under, 101 is above, and 0 against 0 is within.\<close>

theorem classify_spec:
  "fst (classify count average) =
     (if real_of_int count < 0.8 * average then ''under 80% of the average''
      else if real_of_int count > average then ''above the average''
      else ''within 80% of the average'')
   \<and> (fst (classify count average) = ''under 80% of the average''
        \<longleftrightarrow> real_of_int count < 0.8 * average)
   \<and> (fst (classify count average) = ''above the average''
        \<longleftrightarrow> \<not> real_of_int count < 0.8 * average \<and> real_of_int count > average)
   \<and> (fst (classify count average) = ''within 80% of the average''
        \<longleftrightarrow> \<not> real_of_int count < 0.8 * average \<and> \<not> real_of_int count > average)
   \<and> fst (classify 80 100) = ''within 80% of the average''
   \<and> fst (classify 79 100) = ''under 80% of the average''
   \<and> fst (classify 101 100) = ''above the average''
   \<and> fst (classify 0 0) = ''within 80% of the average''"
  by (simp add: classify_def)

subsection \<open>Mode match\<close>

lemma counter_add_keys:
  "map fst (counter_add c x) = (if x \<in> set (map fst c) then map fst c else map fst c @ [x])"
  by (simp add: counter_add_def dict_setitem_def update_keys)

lemma counter_add_map_of:
  "map_of (counter_add c x) = (map_of c)(x \<mapsto> dict_get c x 0 + 1)"
  by (simp add: counter_add_def dict_setitem_def update_conv')

lemma Counter_snoc: "Counter (data @ [x]) = counter_add (Counter data) x"
  by (simp add: Counter_def)

lemma Counter_map_of:
  "map_of (Counter data) v = (if v \<in> set data then Some (count_list data v) else None)"
proof (induction data rule: rev_induct)
  case Nil
  then show ?case by (simp add: Counter_def)
next
  case (snoc x xs)
  then show ?case
    by (auto simp: Counter_snoc counter_add_map_of dict_get_def)
qed

lemma Counter_keys_set: "set (map fst (Counter data)) = set data"
proof -
  have "v \<in> set (map fst (Counter data)) \<longleftrightarrow> v \<in> set data" for v
    using Counter_map_of [of data v] map_of_eq_None_iff [of "Counter data" v]
    by (simp split: if_splits)
  then show ?thesis by auto
qed

lemma Counter_distinct: "distinct (map fst (Counter data))"
proof (induction data rule: rev_induct)
  case Nil
  then show ?case by (simp add: Counter_def)
next
  case (snoc x xs)
  then show ?case by (simp add: Counter_snoc counter_add_keys)
qed

lemma takeWhile_append_mono: "set (takeWhile P xs) \<subseteq> set (takeWhile P (xs @ ys))"
  by (induction xs) auto

lemma takeWhile_neq_antisym:
  "a \<in> set (takeWhile (\<lambda>y. y \<noteq> b) xs) \<Longrightarrow> b \<notin> set (takeWhile (\<lambda>y. y \<noteq> a) xs)"
  by (induction xs) (auto split: if_splits)

text \<open>Keys come in the order of their first occurrence.\<close>

lemma Counter_keys_order:
  "map fst (Counter data) = pre @ v # post \<Longrightarrow> set pre \<subseteq> set (takeWhile (\<lambda>y. y \<noteq> v) data)"
proof (induction data arbitrary: pre post rule: rev_induct)
  case Nil
  then show ?case by (simp add: Counter_def)
next
  case (snoc x xs)
  show ?case
  proof (cases "x \<in> set xs")
    case True
    then have "map fst (Counter xs) = pre @ v # post"
      using snoc.prems by (simp add: Counter_snoc counter_add_keys Counter_keys_set del: set_map)
    from snoc.IH [OF this] show ?thesis
      using takeWhile_append_mono [of "\<lambda>y. y \<noteq> v" xs "[x]"] by blast
  next
    case False
    then have k: "map fst (Counter xs) @ [x] = pre @ v # post"
      using snoc.prems by (simp add: Counter_snoc counter_add_keys Counter_keys_set del: set_map)
    show ?thesis
    proof (cases post rule: rev_cases)
      case Nil
      with k have "pre = map fst (Counter xs)" "v = x" by simp_all
      then have "set pre = set xs" using Counter_keys_set [of xs] by simp
      moreover have "takeWhile (\<lambda>y. y \<noteq> x) (xs @ [x]) = xs"
        using False by (simp add: takeWhile_append)
      ultimately show ?thesis using \<open>v = x\<close> by simp
    next
      case (snoc post' z)
      with k have "map fst (Counter xs) = pre @ v # post'" by simp
      from snoc.IH [OF this] show ?thesis
        using takeWhile_append_mono [of "\<lambda>y. y \<noteq> v" xs "[x]"] by blast
    qed
  qed
qed

lemma max_by_count_first:
  "\<exists>pre post. x # xs = pre @ max_by_count x xs # post
      \<and> (\<forall>y \<in> set pre. snd y < snd (max_by_count x xs))
      \<and> (\<forall>y \<in> set post. snd y \<le> snd (max_by_count x xs))"
proof (induction xs rule: rev_induct)
  case Nil
  show ?case by (intro exI [of _ "[]"]) (simp add: max_by_count_def)
next
  case (snoc z zs)
  then obtain pre post where d: "x # zs = pre @ max_by_count x zs # post"
    and lt: "\<forall>y \<in> set pre. snd y < snd (max_by_count x zs)"
    and le: "\<forall>y \<in> set post. snd y \<le> snd (max_by_count x zs)" by blast
  show ?case
  proof (cases "snd (max_by_count x zs) < snd z")
    case True
    then have m: "max_by_count x (zs @ [z]) = z" by (simp add: max_by_count_def)
    have "x # zs @ [z] = (x # zs) @ z # []" by simp
    moreover have "\<forall>y \<in> set (x # zs). snd y < snd z"
    proof
      fix y assume "y \<in> set (x # zs)"
      then have "y \<in> set pre \<or> y = max_by_count x zs \<or> y \<in> set post"
        by (subst (asm) d) auto
      then show "snd y < snd z" using lt le True by force
    qed
    ultimately show ?thesis unfolding m by (metis empty_iff list.set(1))
  next
    case False
    then have m: "max_by_count x (zs @ [z]) = max_by_count x zs" by (simp add: max_by_count_def)
    have "x # zs @ [z] = pre @ max_by_count x zs # (post @ [z])" using d by simp
    moreover have "\<forall>y \<in> set (post @ [z]). snd y \<le> snd (max_by_count x zs)"
      using le False by auto
    ultimately show ?thesis unfolding m using lt by blast
  qed
qed

lemma mode_first_among_most_frequent:
  assumes "data \<noteq> []"
  shows "\<exists>m. check_frequency_distribution data count = Inr (count = m, m)
           \<and> m \<in> set data
           \<and> (\<forall>v. count_list data v \<le> count_list data m)
           \<and> (\<forall>v. v \<noteq> m \<and> count_list data v = count_list data m
                  \<longrightarrow> v \<notin> set (takeWhile (\<lambda>y. y \<noteq> m) data))"
proof -
  from assms have "Counter data \<noteq> []"
    using Counter_keys_set [of data] by auto
  then obtain x xs where c: "Counter data = x # xs" by (cases "Counter data") auto
  define r where "r = max_by_count x xs"
  obtain pre post where d: "x # xs = pre @ r # post"
    and lt: "\<forall>y \<in> set pre. snd y < snd r"
    and le: "\<forall>y \<in> set post. snd y \<le> snd r"
    using max_by_count_first [of x xs] unfolding r_def by blast
  have items: "Counter data = pre @ r # post" using c d by simp
  have keys: "map fst (Counter data) = map fst pre @ fst r # map fst post"
    by (simp add: items)
  have dist: "distinct (map fst (Counter data))" by (rule Counter_distinct)
  have cnt: "n = count_list data v" if "(v, n) \<in> set (Counter data)" for v n
  proof -
    have "map_of (Counter data) v = Some n" using that dist by simp
    then show ?thesis using Counter_map_of [of data v] by (simp split: if_splits)
  qed
  have mem: "(v, count_list data v) \<in> set (Counter data)" if "v \<in> set data" for v
    using that Counter_map_of [of data v] by (simp add: map_of_SomeD)
  have r_in: "r \<in> set (Counter data)" by (simp add: items)
  have r_cnt: "snd r = count_list data (fst r)"
    using cnt [of "fst r" "snd r"] r_in by simp
  have r_data: "fst r \<in> set data"
    using Counter_keys_set [of data] r_in by force
  have res: "check_frequency_distribution data count = Inr (count = fst r, fst r)"
    by (simp add: check_frequency_distribution_def most_common_1_def c r_def [symmetric]
        split: prod.splits)
  have maxi: "count_list data v \<le> count_list data (fst r)" for v
  proof (cases "v \<in> set data")
    case True
    from mem [OF this] have "(v, count_list data v) \<in> set pre \<union> {r} \<union> set post"
      by (simp add: items)
    then show ?thesis using lt le r_cnt by force
  next
    case False
    then show ?thesis by (simp add: count_list_0_iff)
  qed
  have first: "v \<notin> set (takeWhile (\<lambda>y. y \<noteq> fst r) data)"
    if "v \<noteq> fst r" "count_list data v = count_list data (fst r)" for v
  proof
    assume "v \<in> set (takeWhile (\<lambda>y. y \<noteq> fst r) data)"
    then have vd: "v \<in> set data" by (rule set_takeWhileD [THEN conjunct1])
    from mem [OF vd] have "(v, count_list data v) \<in> set pre \<union> {r} \<union> set post"
      by (simp add: items)
    moreover have "(v, count_list data v) \<notin> set pre" using lt that r_cnt by force
    moreover have "(v, count_list data v) \<noteq> r" using that by (metis fst_conv)
    ultimately have "(v, count_list data v) \<in> set post" by blast
    then have vp: "v \<in> set (map fst post)" by force
    then obtain p1 p2 where "map fst post = p1 @ v # p2" by (auto simp: in_set_conv_decomp)
    then have "map fst (Counter data) = (map fst pre @ fst r # p1) @ v # p2"
      using keys by simp
    from Counter_keys_order [OF this]
    have "fst r \<in> set (takeWhile (\<lambda>y. y \<noteq> v) data)" by auto
    from takeWhile_neq_antisym [OF this] show False
      using \<open>v \<in> set (takeWhile (\<lambda>y. y \<noteq> fst r) data)\<close> by simp
  qed
  show ?thesis using res r_data maxi first by blast
qed

lemmas cfd_eval = check_frequency_distribution_def most_common_1_def Counter_def
  counter_add_def dict_setitem_def dict_get_def max_by_count_def

text \<open>Claim C8. For every non-empty list of integers and every count,
  \<^verbatim>\<open>check_frequency_distribution\<close> returns \<open>(count = m, m)\<close> where \<open>m\<close> occurs in the list
  at least as often as any other value and, among the values that occur as often as \<open>m\<close>,
  is the one whose first occurrence comes first in the list; on \<open>[3, 3, 5, 5, 5]\<close> the
  result is \<open>(True, 5)\<close> for 5 and \<open>(False, 5)\<close> for 3.\<close>

theorem mode_match_spec:
  "(data \<noteq> [] \<longrightarrow>
      (\<exists>m. check_frequency_distribution data count = Inr (count = m, m)
           \<and> m \<in> set data
           \<and> (\<forall>v. count_list data v \<le> count_list data m)
           \<and> (\<forall>v. v \<noteq> m \<and> count_list data v = count_list data m
                  \<longrightarrow> v \<notin> set (takeWhile (\<lambda>y. y \<noteq> m) data))))
   \<and> check_frequency_distribution [3, 3, 5, 5, 5] 5 = Inr (True, 5)
   \<and> check_frequency_distribution [3, 3, 5, 5, 5] 3 = Inr (False, 5)"
proof -
  have a: "check_frequency_distribution [3, 3, 5, 5, 5] 5 = Inr (True, 5)"
    by (simp add: cfd_eval)
  have b: "check_frequency_distribution [3, 3, 5, 5, 5] 3 = Inr (False, 5)"
    by (simp add: cfd_eval)
  show ?thesis
    using mode_first_among_most_frequent [of data count] a b by blast
qed

theorem mode_match_witness:
  "[1, 2, 2, 1] \<noteq> ([] :: int list)
   \<and> (\<exists>m. check_frequency_distribution [1, 2, 2, 1] 2 = Inr (2 = m, m)
          \<and> m \<in> set [1, 2, 2, 1]
          \<and> (\<forall>v. count_list [1, 2, 2, 1 :: int] v \<le> count_list [1, 2, 2, 1] m)
          \<and> 2 \<notin> set (takeWhile (\<lambda>y. y \<noteq> m) [1, 2, 2, 1]))"
proof -
  have ne: "[1, 2, 2, 1] \<noteq> ([] :: int list)" by simp
  have r: "check_frequency_distribution [1, 2, 2, 1] 2 = Inr (False, 1)"
    by (simp add: cfd_eval)
  from mode_match_spec [of "[1, 2, 2, 1]" 2] ne
  obtain m where m: "check_frequency_distribution [1, 2, 2, 1] 2 = Inr (2 = m, m)"
    "m \<in> set [1, 2, 2, 1]"
    "\<forall>v. count_list [1, 2, 2, 1 :: int] v \<le> count_list [1, 2, 2, 1] m"
    by blast
  from m(1) r have "m = 1" by simp
  then have "2 \<notin> set (takeWhile (\<lambda>y. y \<noteq> m) [1, 2, 2, 1])" by simp
  with ne m show ?thesis by blast
qed

lemma mode_tie_example: "check_frequency_distribution [1, 2, 2, 1] 2 = Inr (False, 1)"
  by (simp add: cfd_eval)

lemma mode_empty_sample: "check_frequency_distribution [] count = Inl IndexError"
  by (simp add: cfd_eval)

subsection \<open>Choice of the secondary analysis\<close>

lemma coefficient_of_variation_value:
  "calculate_coefficient_of_variation data =
     Inr (let n = length data; mean = real_of_int (sum_list data) / real n
          in if n < 2 \<or> mean = 0 then 0
             else sqrt ((\<Sum>x\<leftarrow>data. (real_of_int x - mean)\<^sup>2) / real (n - 1)) / mean)"
  by (auto simp: calculate_coefficient_of_variation_def statistics_mean_def
      statistics_stdev_def Let_def)

lemma interquartile_range_value:
  "calculate_interquartile_range data =
     Inr (let n = length data;
              q1 = (if n < 4 then 0 else closest_rank_interpolation (sort data) (1 / 4));
              q3 = (if n < 4 then 0 else closest_rank_interpolation (sort data) (3 / 4))
          in (q1, q3, q3 - q1))"
proof (cases "length data < 4")
  case True
  then show ?thesis by (simp add: calculate_interquartile_range_def)
next
  case False
  then have n: "4 \<le> length data" by simp
  show ?thesis
    using False np_percentile_interpolation [OF n, of 25] np_percentile_interpolation [OF n, of 75]
    by (simp add: calculate_interquartile_range_def Let_def)
qed

text \<open>Claim C5, as amended. For every non-empty six-month sample the coefficient of
  variation (0 for fewer than two samples or a mean of 0, otherwise the sample standard
  deviation over the mean) selects the secondary analysis. Above 0.2 the dialog reports
  the count against the quartiles that \<^verbatim>\<open>calculate_interquartile_range\<close> returns, which
  are the 25th and 75th percentiles for four samples or more and 0 and 0 for fewer; there
  are two outcomes only: below the first quartile when \<open>count < q1\<close>, within the
  interquartile range otherwise (so also for a count above \<open>q3\<close>). At 0.2 or below the
  dialog reports whether the count equals the sample's most frequent value \<open>m\<close>, the first
  in the list among the values that occur most often.\<close>

theorem submit_data_analysis_spec:
  assumes "data \<noteq> []"
  shows "\<exists>m. m \<in> set data
      \<and> (\<forall>v. count_list data v \<le> count_list data m)
      \<and> (\<forall>v. v \<noteq> m \<and> count_list data v = count_list data m
             \<longrightarrow> v \<notin> set (takeWhile (\<lambda>y. y \<noteq> m) data))
      \<and> submit_data_analysis data count =
          Inr (Some
            (let n = length data;
                 mean = real_of_int (sum_list data) / real n;
                 cv = (if n < 2 \<or> mean = 0 then 0
                       else sqrt ((\<Sum>x\<leftarrow>data. (real_of_int x - mean)\<^sup>2) / real (n - 1)) / mean);
                 q1 = (if n < 4 then 0 else closest_rank_interpolation (sort data) (1 / 4));
                 q3 = (if n < 4 then 0 else closest_rank_interpolation (sort data) (3 / 4))
             in (cv,
                 if 0.2 < cv
                 then (if real_of_int count < q1 then Below_first_quartile q1
                       else Within_interquartile_range q1 q3)
                 else (if count = m then Matches_most_frequent m
                       else Does_not_match_most_frequent m))))"
proof -
  define n where "n = length data"
  define mean where "mean = real_of_int (sum_list data) / real n"
  define cv where "cv = (if n < 2 \<or> mean = 0 then 0
                       else sqrt ((\<Sum>x\<leftarrow>data. (real_of_int x - mean)\<^sup>2) / real (n - 1)) / mean)"
  define q1 where "q1 = (if n < 4 then 0 else closest_rank_interpolation (sort data) (1 / 4))"
  define q3 where "q3 = (if n < 4 then 0 else closest_rank_interpolation (sort data) (3 / 4))"
  have c: "calculate_coefficient_of_variation data = Inr cv"
    unfolding coefficient_of_variation_value cv_def mean_def n_def by (simp add: Let_def)
  have q: "calculate_interquartile_range data = Inr (q1, q3, q3 - q1)"
    unfolding interquartile_range_value q1_def q3_def n_def by (simp add: Let_def)
  obtain m where m: "check_frequency_distribution data count = Inr (count = m, m)"
    and m1: "m \<in> set data"
    and m2: "\<forall>v. count_list data v \<le> count_list data m"
    and m3: "\<forall>v. v \<noteq> m \<and> count_list data v = count_list data m
             \<longrightarrow> v \<notin> set (takeWhile (\<lambda>y. y \<noteq> m) data)"
    using mode_first_among_most_frequent [OF assms] by blast
  have "submit_data_analysis data count =
          Inr (Some (cv,
                 if 0.2 < cv
                 then (if real_of_int count < q1 then Below_first_quartile q1
                       else Within_interquartile_range q1 q3)
                 else (if count = m then Matches_most_frequent m
                       else Does_not_match_most_frequent m)))"
    using assms by (simp add: submit_data_analysis_def c q m)
  then have "submit_data_analysis data count =
          Inr (Some
            (let n = length data;
                 mean = real_of_int (sum_list data) / real n;
                 cv = (if n < 2 \<or> mean = 0 then 0
                       else sqrt ((\<Sum>x\<leftarrow>data. (real_of_int x - mean)\<^sup>2) / real (n - 1)) / mean);
                 q1 = (if n < 4 then 0 else closest_rank_interpolation (sort data) (1 / 4));
                 q3 = (if n < 4 then 0 else closest_rank_interpolation (sort data) (3 / 4))
             in (cv,
                 if 0.2 < cv
                 then (if real_of_int count < q1 then Below_first_quartile q1
                       else Within_interquartile_range q1 q3)
                 else (if count = m then Matches_most_frequent m
                       else Does_not_match_most_frequent m))))"
    unfolding Let_def cv_def mean_def n_def q1_def q3_def .
  with m1 m2 m3 show ?thesis by blast
qed

theorem submit_data_analysis_witness:
  "[5, 1, 5, 1, 3] \<noteq> ([] :: int list)
   \<and> submit_data_analysis [5, 1, 5, 1, 3] 0 = Inr (Some (2 / 3, Below_first_quartile 1))
   \<and> submit_data_analysis [5, 1, 5, 1, 3] 9 = Inr (Some (2 / 3, Within_interquartile_range 1 5))
   \<and> [10, 10, 10] \<noteq> ([] :: int list)
   \<and> submit_data_analysis [10, 10, 10] 9 = Inr (Some (0, Does_not_match_most_frequent 10))
   \<and> submit_data_analysis [10, 10, 10] 10 = Inr (Some (0, Matches_most_frequent 10))"
proof -
  have ne: "[5, 1, 5, 1, 3] \<noteq> ([] :: int list)" by simp
  have ne2: "[10, 10, 10] \<noteq> ([] :: int list)" by simp
  have a: "submit_data_analysis [5, 1, 5, 1, 3] 0 = Inr (Some (2 / 3, Below_first_quartile 1))"
    using submit_data_analysis_spec [OF ne, of 0]
    by (auto simp: Let_def power2_eq_square closest_rank_interpolation_def)
  have b: "submit_data_analysis [5, 1, 5, 1, 3] 9 = Inr (Some (2 / 3, Within_interquartile_range 1 5))"
    using submit_data_analysis_spec [OF ne, of 9]
    by (auto simp: Let_def power2_eq_square closest_rank_interpolation_def)
  have c: "submit_data_analysis [10, 10, 10] 9 = Inr (Some (0, Does_not_match_most_frequent 10))"
    using submit_data_analysis_spec [OF ne2, of 9]
    by (auto simp: Let_def power2_eq_square)
  have d: "submit_data_analysis [10, 10, 10] 10 = Inr (Some (0, Matches_most_frequent 10))"
    using submit_data_analysis_spec [OF ne2, of 10]
    by (auto simp: Let_def power2_eq_square)
  show ?thesis using a b c d by simp
qed

text \<open>With two or three samples the quartiles are not computed: the count 1 lies below
  the 25th percentile of \<open>[1, 2, 3]\<close>, which is 1.5, and is reported within a range from
  0 to 0.\<close>

theorem submit_data_analysis_counterexample:
  "submit_data_analysis [1, 2, 3] 1 = Inr (Some (1 / 2, Within_interquartile_range 0 0))
   \<and> np_percentile [1, 2, 3] 25 = Inr (3 / 2)
   \<and> closest_rank_interpolation (sort [1, 2, 3]) (1 / 4) = 3 / 2
   \<and> real_of_int 1 < 3 / 2"
  by (simp add: submit_data_analysis_def calculate_coefficient_of_variation_def
      statistics_mean_def statistics_stdev_def calculate_interquartile_range_def
      np_percentile_def closest_rank_interpolation_def Let_def power2_eq_square)

subsection \<open>Reading the record store\<close>

lemma update_absent_append:
  "map_of d k = None \<Longrightarrow> AList.update k v d = d @ [(k, v)]"
  by (induction d) (auto split: if_splits)

lemma defaultdict_getitem_present:
  "map_of d k = Some v \<Longrightarrow> defaultdict_getitem dflt d k = (v, d)"
  by (simp add: defaultdict_getitem_def)

lemma defaultdict_getitem_absent:
  "map_of d k = None \<Longrightarrow> defaultdict_getitem dflt d k = (dflt, d @ [(k, dflt)])"
  by (simp add: defaultdict_getitem_def dict_setitem_def update_absent_append)

lemma last_week_loop_store:
  "snd (last_week_loop date diary_name is lw s) = s"
proof (induction "is" arbitrary: lw)
  case Nil
  then show ?case by simp
next
  case (Cons i rest)
  show ?case
  proof (cases "date_sub_days date i")
    case (Inl e)
    then show ?thesis by simp
  next
    case (Inr day)
    show ?thesis
    proof (cases "map_of s day")
      case None
      then show ?thesis using Inr by (simp add: dict_contains_def Cons.IH)
    next
      case (Some ds)
      then show ?thesis using Inr
        by (simp add: dict_contains_def defaultdict_getitem_present Cons.IH)
    qed
  qed
qed

text \<open>Claim C10. The three operations that only read leave the record store as it was,
  for all inputs and whether they return or raise: \<^verbatim>\<open>calculate_weekday_averages\<close>,
  \<^verbatim>\<open>get_last_week_summary\<close> and \<^verbatim>\<open>check_article_count\<close> hand back the store they were
  given. For \<^verbatim>\<open>get_last_week_summary\<close> this rests on the membership test before the
  index: an index of an absent date would append an empty dictionary
  (\<open>defaultdict_getitem_absent\<close>).\<close>

theorem read_only_operations_frame:
  "snd (calculate_weekday_averages s now diary_name) = s
   \<and> snd (get_last_week_summary s date diary_name) = s
   \<and> snd (check_article_count s now today diary_name count) = s"
proof (intro conjI)
  show a: "snd (calculate_weekday_averages s now diary_name) = s"
    by (simp add: calculate_weekday_averages_def Let_def split: sum.splits)
  show "snd (get_last_week_summary s date diary_name) = s"
    unfolding get_last_week_summary_def by (rule last_week_loop_store)
  show "snd (check_article_count s now today diary_name count) = s"
    using a by (auto simp: check_article_count_def split: prod.splits sum.splits)
qed

lemma last_week_loop_result:
  assumes "\<forall>i \<in> set is. 0 < toordinal date - i \<and> toordinal date - i \<le> MAXORDINAL"
  shows "fst (last_week_loop date diary_name is lw s) =
          Inr (foldl (\<lambda>acc i. dict_setitem acc (Date (toordinal date - i))
                                 (stored_count s (Date (toordinal date - i)) diary_name)) lw is)"
  using assms
proof (induction "is" arbitrary: lw)
  case Nil
  then show ?case by simp
next
  case (Cons i rest)
  then have d: "date_sub_days date i = Inr (Date (toordinal date - i))"
    by (simp add: date_sub_days_def Let_def)
  have r: "\<forall>i \<in> set rest. 0 < toordinal date - i \<and> toordinal date - i \<le> MAXORDINAL"
    using Cons.prems by simp
  show ?case
  proof (cases "map_of s (Date (toordinal date - i))")
    case None
    then show ?thesis
      by (simp add: d dict_contains_def stored_count_def Cons.IH [OF r])
  next
    case (Some ds)
    then show ?thesis
      by (simp add: d dict_contains_def stored_count_def defaultdict_getitem_present
          Cons.IH [OF r])
  qed
qed

text \<open>Claim C9, as amended. For every end date from 0001-01-07 on (ordinal above 6) and
  every diary name, \<^verbatim>\<open>get_last_week_summary\<close> returns exactly seven (date, count) pairs:
  the end date first, then the six days before it in descending order, each with the count
  stored for that date and diary, or 0 when there is none.\<close>

theorem week_summary_spec:
  assumes "6 < toordinal end_date" "toordinal end_date \<le> MAXORDINAL"
  shows "fst (get_last_week_summary s end_date diary_name) =
           Inr (map (\<lambda>i. (Date (toordinal end_date - i),
                          stored_count s (Date (toordinal end_date - i)) diary_name))
                  [0, 1, 2, 3, 4, 5, 6])"
proof -
  have "\<forall>i \<in> set [0, 1, 2, 3, 4, 5, 6 :: int].
          0 < toordinal end_date - i \<and> toordinal end_date - i \<le> MAXORDINAL"
    using assms by auto
  then have "fst (get_last_week_summary s end_date diary_name) =
          Inr (foldl (\<lambda>acc i. dict_setitem acc (Date (toordinal end_date - i))
                                 (stored_count s (Date (toordinal end_date - i)) diary_name))
                 [] [0, 1, 2, 3, 4, 5, 6])"
    unfolding get_last_week_summary_def by (rule last_week_loop_result)
  also have "\<dots> = Inr (map (\<lambda>i. (Date (toordinal end_date - i),
                          stored_count s (Date (toordinal end_date - i)) diary_name))
                  [0, 1, 2, 3, 4, 5, 6])"
    by (cases end_date) (simp add: dict_setitem_def)
  finally show ?thesis .
qed

theorem week_summary_witness:
  "fst (get_last_week_summary [(Date 100, [(''a'', 5)])] (Date 101) ''a'') =
     Inr [(Date 101, 0), (Date 100, 5), (Date 99, 0), (Date 98, 0), (Date 97, 0),
          (Date 96, 0), (Date 95, 0)]"
  using week_summary_spec [of "Date 101" "[(Date 100, [(''a'', 5)])]" "''a''"]
  by (simp add: MAXORDINAL_def stored_count_def dict_get_def)

text \<open>For an end date in the first six days of year 1 the subtraction leaves the range
  of dates and \<^verbatim>\<open>OverflowError\<close> is raised instead of a summary.\<close>

theorem week_summary_counterexample:
  "fst (get_last_week_summary [] (Date 3) ''x'') = Inl OverflowError"
  by (simp add: get_last_week_summary_def date_sub_days_def MAXORDINAL_def Let_def
      dict_contains_def)

subsection \<open>Weekday analyzer\<close>

lemma weekday_data_append_map_of:
  "map_of (weekday_data_append wdata wd c) =
     (map_of wdata)(wd \<mapsto> (case map_of wdata wd of None \<Rightarrow> [] | Some cs \<Rightarrow> cs) @ [c])"
  by (cases "map_of wdata wd")
     (simp_all add: weekday_data_append_def defaultdict_getitem_def dict_setitem_def update_conv')

lemma qualifying_counts_snoc:
  "qualifying_counts (s @ [(d, ds)]) diary_name since wd =
     qualifying_counts s diary_name since wd @
       (if toordinal since \<le> toordinal d \<and> weekday d = wd
        then (case map_of ds diary_name of None \<Rightarrow> [] | Some c \<Rightarrow> [c]) else [])"
  by (auto simp: qualifying_counts_def dict_contains_def dict_get_def split: option.splits)

lemma weekday_data_groups:
  "map_of (foldl (weekday_data_step since diary_name) [] s) wd =
     (if qualifying_counts s diary_name since wd = [] then None
      else Some (qualifying_counts s diary_name since wd))"
proof (induction s arbitrary: wd rule: rev_induct)
  case Nil
  then show ?case by (simp add: qualifying_counts_def)
next
  case (snoc r s)
  obtain d ds where r: "r = (d, ds)" by (cases r)
  show ?case
  proof (cases "toordinal since \<le> toordinal d")
    case False
    then show ?thesis
      using snoc.IH [of wd] by (simp add: r weekday_data_step_def qualifying_counts_snoc)
  next
    case True
    show ?thesis
    proof (cases "map_of ds diary_name")
      case None
      then show ?thesis
        using snoc.IH [of wd] True by (simp add: r weekday_data_step_def qualifying_counts_snoc)
    next
      case (Some c)
      show ?thesis
      proof (cases "weekday d = wd")
        case False
        then show ?thesis
          using snoc.IH [of wd] True Some
          by (simp add: r weekday_data_step_def qualifying_counts_snoc weekday_data_append_map_of)
      next
        case w: True
        then show ?thesis
          using snoc.IH [of wd] True Some
          by (simp add: r weekday_data_step_def qualifying_counts_snoc weekday_data_append_map_of)
      qed
    qed
  qed
qed

lemma averages_map_of:
  "map_of (map (\<lambda>(day, counts). (day, average_or_zero counts)) wdata) wd =
     map_option average_or_zero (map_of wdata wd)"
  by (induction wdata) auto

lemma weekday_averages_lookup:
  assumes "180 < toordinal as_of" "toordinal as_of \<le> MAXORDINAL"
  shows "\<exists>avgs. fst (calculate_weekday_averages s as_of diary_name) = Inr avgs
      \<and> (\<forall>wd. map_of avgs wd =
            (let q = qualifying_counts s diary_name (Date (toordinal as_of - 180)) wd
             in if q = [] then None else Some (real_of_int (sum_list q) / real (length q))))"
proof -
  have d: "date_sub_days as_of 180 = Inr (Date (toordinal as_of - 180))"
    using assms by (simp add: date_sub_days_def Let_def)
  have "map_of (map (\<lambda>(day, counts). (day, average_or_zero counts))
                 (foldl (weekday_data_step (Date (toordinal as_of - 180)) diary_name) [] s)) wd =
          (let q = qualifying_counts s diary_name (Date (toordinal as_of - 180)) wd
           in if q = [] then None else Some (real_of_int (sum_list q) / real (length q)))" for wd
    unfolding averages_map_of weekday_data_groups by (simp add: average_or_zero_def Let_def)
  then show ?thesis
    unfolding calculate_weekday_averages_def d Let_def by simp
qed

text \<open>Claim C2, as amended. For every diary name and every clock date \<open>as_of\<close> (later
  than day 180 of year 1, so that \<open>as_of - 180 days\<close> is a date), the dictionary returned
  by \<^verbatim>\<open>calculate_weekday_averages\<close> has an entry exactly for the weekdays that have
  qualifying records, and the entry is the arithmetic mean of the qualifying counts; a
  weekday without qualifying records has no entry, and reads as 0 only through the
  default of \<^verbatim>\<open>weekday_averages.get(day, 0)\<close>, which is how both callers read it. A
  record qualifies when its date is on or after \<open>as_of - 180 days\<close> (later dates included)
  and its diaries contain the name.\<close>

theorem weekday_averages_spec:
  assumes "180 < toordinal as_of" "toordinal as_of \<le> MAXORDINAL"
  shows "\<exists>avgs. fst (calculate_weekday_averages s as_of diary_name) = Inr avgs
      \<and> (\<forall>wd. map_of avgs wd =
            (let q = qualifying_counts s diary_name (Date (toordinal as_of - 180)) wd
             in if q = [] then None else Some (real_of_int (sum_list q) / real (length q))))
      \<and> (\<forall>wd. dict_get avgs wd 0 =
            (let q = qualifying_counts s diary_name (Date (toordinal as_of - 180)) wd
             in if q = [] then 0 else real_of_int (sum_list q) / real (length q)))"
proof -
  from weekday_averages_lookup [OF assms, of s diary_name]
  obtain avgs where a: "fst (calculate_weekday_averages s as_of diary_name) = Inr avgs"
    and b: "\<forall>wd. map_of avgs wd =
            (let q = qualifying_counts s diary_name (Date (toordinal as_of - 180)) wd
             in if q = [] then None else Some (real_of_int (sum_list q) / real (length q)))"
    by blast
  have "dict_get avgs wd 0 =
            (let q = qualifying_counts s diary_name (Date (toordinal as_of - 180)) wd
             in if q = [] then 0 else real_of_int (sum_list q) / real (length q))" for wd
    using b [rule_format, of wd] by (simp add: dict_get_def Let_def)
  with a b show ?thesis by blast
qed

theorem weekday_averages_witness:
  "180 < toordinal (Date 738900) \<and> toordinal (Date 738900) \<le> MAXORDINAL
   \<and> (\<exists>avgs. fst (calculate_weekday_averages
                 [(Date 738886, [(''a'', 5)]), (Date 738893, [(''a'', 6), (''b'', 1)]),
                  (Date 739000, [(''a'', 10)]), (Date 738000, [(''a'', 100)])]
                 (Date 738900) ''a'') = Inr avgs
      \<and> map_of avgs 0 = Some (11 / 2) \<and> map_of avgs 2 = Some 10 \<and> map_of avgs 1 = None
      \<and> dict_get avgs 0 0 = 11 / 2 \<and> dict_get avgs 2 0 = 10 \<and> dict_get avgs 1 0 = 0)"
proof -
  define s :: store where
    "s = [(Date 738886, [(''a'', 5)]), (Date 738893, [(''a'', 6), (''b'', 1)]),
          (Date 739000, [(''a'', 10)]), (Date 738000, [(''a'', 100)])]"
  have h: "180 < toordinal (Date 738900)" "toordinal (Date 738900) \<le> MAXORDINAL"
    by (simp_all add: MAXORDINAL_def)
  from weekday_averages_spec [OF h, of s "''a''"]
  obtain avgs where a: "fst (calculate_weekday_averages s (Date 738900) ''a'') = Inr avgs"
    and m: "\<forall>wd. map_of avgs wd =
            (let q = qualifying_counts s ''a'' (Date (toordinal (Date 738900) - 180)) wd
             in if q = [] then None else Some (real_of_int (sum_list q) / real (length q)))"
    and b: "\<forall>wd. dict_get avgs wd 0 =
            (let q = qualifying_counts s ''a'' (Date (toordinal (Date 738900) - 180)) wd
             in if q = [] then 0 else real_of_int (sum_list q) / real (length q))"
    by blast
  have "map_of avgs 0 = Some (11 / 2)"
    using m [rule_format, of 0]
    by (simp add: s_def qualifying_counts_def weekday_def dict_contains_def dict_get_def)
  moreover have "map_of avgs 2 = Some 10"
    using m [rule_format, of 2]
    by (simp add: s_def qualifying_counts_def weekday_def dict_contains_def dict_get_def)
  moreover have "map_of avgs 1 = None"
    using m [rule_format, of 1]
    by (simp add: s_def qualifying_counts_def weekday_def dict_contains_def dict_get_def)
  moreover have "dict_get avgs 0 0 = 11 / 2"
    using b [rule_format, of 0]
    by (simp add: s_def qualifying_counts_def weekday_def dict_contains_def dict_get_def)
  moreover have "dict_get avgs 2 0 = 10"
    using b [rule_format, of 2]
    by (simp add: s_def qualifying_counts_def weekday_def dict_contains_def dict_get_def)
  moreover have "dict_get avgs 1 0 = 0"
    using b [rule_format, of 1]
    by (simp add: s_def qualifying_counts_def weekday_def dict_contains_def dict_get_def)
  ultimately show ?thesis using a h unfolding s_def by blast
qed

text \<open>The returned dictionary does not map a weekday without qualifying records to 0:
  with one record, on a Monday, it has the single key 0, and on an empty store it is
  empty.\<close>

theorem weekday_averages_counterexample:
  "calculate_weekday_averages [(Date 738886, [(''a'', 5)])] (Date 738900) ''a'' =
     (Inr [(0, 5)], [(Date 738886, [(''a'', 5)])])
   \<and> qualifying_counts [(Date 738886, [(''a'', 5)])] ''a'' (Date (738900 - 180)) 1 = []
   \<and> map_of [(0 :: int, 5 :: real)] 1 = None
   \<and> calculate_weekday_averages [] (Date 738900) ''a'' = (Inr [], [])"
  by (simp add: calculate_weekday_averages_def date_sub_days_def MAXORDINAL_def Let_def
      weekday_data_step_def weekday_data_append_def defaultdict_getitem_def dict_setitem_def
      weekday_def average_or_zero_def qualifying_counts_def dict_contains_def)

text \<open>A clock in the first 180 days of year 1 raises.\<close>

lemma weekday_averages_clock_underflow:
  "fst (calculate_weekday_averages s (Date 100) diary_name) = Inl OverflowError"
  by (simp add: calculate_weekday_averages_def date_sub_days_def MAXORDINAL_def Let_def)

subsection \<open>Integers and text\<close>

lemma digit_char_eq: "n < 10 \<Longrightarrow> (digit_char n = c) = (of_char c = 48 + n)"
  by (auto simp: digit_char_def char_of_eq_iff take_bit_eq_mod)

lemma digit_char_is_digit [simp]: "n < 10 \<Longrightarrow> is_digit (digit_char n)"
  by (simp add: is_digit_def digit_char_def)

lemma digit_char_val [simp]: "n < 10 \<Longrightarrow> digit_val (digit_char n) = n"
  by (simp add: digit_val_def digit_char_def)

lemma digits_value_snoc: "digits_value (ds @ [c]) = 10 * digits_value ds + digit_val c"
  by (simp add: digits_value_def)

lemma str_nat_fuel_digits:
  "n \<le> k \<Longrightarrow> str_nat_fuel k n \<noteq> [] \<and> list_all is_digit (str_nat_fuel k n)
      \<and> digits_value (str_nat_fuel k n) = n"
proof (induction k arbitrary: n)
  case 0
  then show ?case by (simp add: digits_value_def)
next
  case (Suc k)
  show ?case
  proof (cases "n < 10")
    case True
    then show ?thesis by (simp add: digits_value_def)
  next
    case False
    then have "n div 10 \<le> k" using Suc.prems by linarith
    from Suc.IH [OF this] show ?thesis using False
      by (simp add: digits_value_snoc)
  qed
qed

lemma str_nat_digits:
  "str_nat n \<noteq> []" "list_all is_digit (str_nat n)" "digits_value (str_nat n) = n"
  using str_nat_fuel_digits [of n n] by (simp_all add: str_nat_def)

lemma is_digit_not_special:
  assumes "is_digit c"
  shows "c \<noteq> CHR ''_''" "c \<noteq> CHR ''-''" "c \<noteq> CHR ''+''" "c \<noteq> CHR '',''"
    "c \<noteq> CHR 0x0A" "c \<noteq> CHR 0x0D" "\<not> is_space c"
  using assms by (auto simp: is_digit_def is_space_def Let_def)

lemma int_body_ok_digits: "ds \<noteq> [] \<Longrightarrow> list_all is_digit ds \<Longrightarrow> int_body_ok ds"
proof (induction ds rule: int_body_ok.induct)
  case 1
  then show ?case by simp
next
  case (2 c)
  then show ?case by simp
next
  case (3 c d cs)
  then show ?case by (auto simp: is_digit_not_special)
qed

lemma filter_underscore_digits:
  "list_all is_digit ds \<Longrightarrow> filter (\<lambda>c. c \<noteq> CHR ''_'') ds = ds"
  by (induction ds) (auto simp: is_digit_not_special)

lemma strip_id:
  assumes "s = [] \<or> (\<not> is_space (hd s) \<and> \<not> is_space (last s))"
  shows "strip s = s"
proof (cases s)
  case Nil
  then show ?thesis by (simp add: strip_def)
next
  case (Cons c cs)
  with assms have h: "\<not> is_space c" and l: "\<not> is_space (last s)" by auto
  have "dropWhile is_space s = s" using h Cons by simp
  moreover have "hd (rev s) = last s" using Cons by (simp only: hd_rev) 
  then have "dropWhile is_space (rev s) = rev s"
    using l by (simp only: dropWhile_eq_self_iff) simp
  ultimately show ?thesis by (simp add: strip_def)
qed

lemma str_nat_fuel_enough:
  "n \<le> k \<Longrightarrow> n \<le> k' \<Longrightarrow> str_nat_fuel k n = str_nat_fuel k' n"
proof (induction k arbitrary: n k')
  case 0
  then show ?case by (cases k') simp_all
next
  case (Suc k)
  show ?case
  proof (cases k')
    case 0
    then show ?thesis using Suc.prems by simp
  next
    case (Suc j)
    show ?thesis
    proof (cases "n < 10")
      case True
      then show ?thesis using Suc by simp
    next
      case False
      then have "n div 10 \<le> k" "n div 10 \<le> j" using Suc.prems Suc by linarith+
      from Suc.IH [OF this] show ?thesis using False Suc by simp
    qed
  qed
qed

lemma str_nat_rec:
  "str_nat n = (if n < 10 then [digit_char n] else str_nat (n div 10) @ [digit_char (n mod 10)])"
proof (cases n)
  case 0
  then show ?thesis by (simp add: str_nat_def)
next
  case (Suc k)
  have "n div 10 \<le> k" using Suc by linarith
  then have "str_nat_fuel k (n div 10) = str_nat_fuel (n div 10) (n div 10)"
    by (intro str_nat_fuel_enough) simp_all
  then show ?thesis using Suc by (simp add: str_nat_def)
qed

lemma str_nat_length: "0 < k \<Longrightarrow> n < 10 ^ k \<Longrightarrow> length (str_nat n) \<le> k"
proof (induction k arbitrary: n)
  case 0
  then show ?case by simp
next
  case (Suc k)
  show ?case
  proof (cases "n < 10")
    case True
    then show ?thesis by (subst str_nat_rec) simp
  next
    case False
    then have k: "0 < k" using Suc.prems by (cases k) simp_all
    have "n div 10 < 10 ^ k" using Suc.prems by (simp add: less_mult_imp_div_less mult.commute)
    from Suc.IH [OF k this] show ?thesis using False by (subst str_nat_rec) simp
  qed
qed

lemma str_nat_length_small:
  assumes "\<bar>i\<bar> < 10 ^ int_max_str_digits"
  shows "length (str_nat (nat \<bar>i\<bar>)) \<le> int_max_str_digits"
proof -
  have "int (nat \<bar>i\<bar>) < int (10 ^ int_max_str_digits)" using assms by simp
  then have lt: "nat \<bar>i\<bar> < 10 ^ int_max_str_digits" by (simp only: of_nat_less_iff)
  have pos: "0 < int_max_str_digits" by (simp add: int_max_str_digits_def)
  show ?thesis by (rule str_nat_length [OF pos lt])
qed

lemma str_int_small: "\<bar>i\<bar> < 10 ^ int_max_str_digits \<Longrightarrow> str_int i = Inr (int_text i)"
  using str_nat_length_small [of i] by (simp add: str_int_def)

lemma py_int_int_text:
  assumes small: "\<bar>i\<bar> < 10 ^ int_max_str_digits"
  shows "py_int (int_text i) = Inr i"
proof -
  define ds where "ds = str_nat (nat \<bar>i\<bar>)"
  have ne: "ds \<noteq> []" and dg: "list_all is_digit ds" and dv: "digits_value ds = nat \<bar>i\<bar>"
    unfolding ds_def by (rule str_nat_digits)+
  have len: "length ds \<le> int_max_str_digits"
    unfolding ds_def using small by (rule str_nat_length_small)
  have hd_d: "is_digit (hd ds)" and last_d: "is_digit (last ds)"
    using ne dg by (auto simp: list_all_iff)
  show ?thesis
  proof (cases "i < 0")
    case True
    then have s: "int_text i = CHR ''-'' # ds" by (simp add: int_text_def ds_def)
    have "\<not> is_space (CHR ''-'')" by (simp add: is_space_def)
    then have st: "strip (int_text i) = CHR ''-'' # ds"
      unfolding s using ne last_d by (intro strip_id) (simp add: is_digit_not_special)
    show ?thesis
      using True len
      by (simp add: py_int_def st Let_def int_body_ok_digits [OF ne dg]
          filter_underscore_digits [OF dg] dv)
  next
    case False
    then have s: "int_text i = ds" by (simp add: int_text_def ds_def)
    have st: "strip (int_text i) = ds"
      unfolding s using ne hd_d last_d by (intro strip_id) (simp add: is_digit_not_special)
    show ?thesis
      using False ne hd_d len
      by (auto simp: py_int_def st Let_def int_body_ok_digits [OF ne dg]
          filter_underscore_digits [OF dg] dv is_digit_not_special)
  qed
qed

lemma int_text_chars:
  "c \<in> set (int_text i) \<Longrightarrow> is_digit c \<or> c = CHR ''-''"
  using str_nat_digits(2) by (auto simp: int_text_def list_all_iff split: if_splits)

lemma split_on_no_sep: "sep \<notin> set s \<Longrightarrow> split_on sep s = [s]"
  by (induction s) auto

lemma split_on_append_sep:
  "sep \<notin> set a \<Longrightarrow> split_on sep (a @ sep # rest) = a # split_on sep rest"
  by (induction a) auto

lemma split_on_three:
  assumes "sep \<notin> set a" "sep \<notin> set b" "sep \<notin> set c"
  shows "split_on sep (a @ [sep] @ b @ [sep] @ c) = [a, b, c]"
  using assms by (simp add: split_on_append_sep split_on_no_sep)

lemma universal_newlines_id: "CHR 0x0D \<notin> set s \<Longrightarrow> universal_newlines s = s"
  by (induction s rule: universal_newlines.induct) auto

lemma file_lines_append_line:
  "CHR 0x0A \<notin> set b \<Longrightarrow> file_lines (b @ CHR 0x0A # rest) = (b @ [CHR 0x0A]) # file_lines rest"
  by (induction b) auto

lemma file_lines_concat:
  assumes "\<forall>b \<in> set bodies. CHR 0x0A \<notin> set b"
  shows "file_lines (concat (map (\<lambda>b. b @ [CHR 0x0A]) bodies)) = map (\<lambda>b. b @ [CHR 0x0A]) bodies"
  using assms by (induction bodies) (simp_all add: file_lines_append_line)

lemma strip_line:
  assumes "body \<noteq> []" "\<not> is_space (hd body)" "\<not> is_space (last body)"
  shows "strip (body @ [CHR 0x0A]) = body"
proof -
  have a: "dropWhile is_space (body @ [CHR 0x0A]) = body @ [CHR 0x0A]"
    using assms by (cases body) auto
  have sp: "is_space (CHR 0x0A)" by (simp add: is_space_def)
  have "hd (rev body) = last body" using assms(1) by (simp only: hd_rev)
  then have b: "dropWhile is_space (rev body) = rev body"
    using assms(3) by (simp only: dropWhile_eq_self_iff) simp
  show ?thesis by (simp add: strip_def a sp b)
qed

subsection \<open>The calendar\<close>

lemma month_of_day_in_year:
  assumes r: "0 \<le> r" "r \<le> 364"
  shows "(let month = (r + 50) div 32;
              preceding = DAYS_BEFORE_MONTH ! nat month + (if month > 2 \<and> leap then 1 else 0)
          in if preceding > r
             then (let month = month - 1;
                       preceding = preceding - (DAYS_IN_MONTH ! nat month
                                     + (if month = 2 \<and> leap then 1 else 0))
                   in month_day_ok leap r month (r - preceding + 1))
             else month_day_ok leap r month (r - preceding + 1))"
proof -
  define k where "k = (r + 50) div 32"
  have kr: "32 * k - 50 \<le> r" "r \<le> 32 * k - 19" unfolding k_def by linarith+
  have "1 \<le> k" "k \<le> 12" unfolding k_def using r by linarith+
  then consider "k = 1" | "k = 2" | "k = 3" | "k = 4" | "k = 5" | "k = 6" | "k = 7" | "k = 8"
    | "k = 9" | "k = 10" | "k = 11" | "k = 12" by atomize_elim arith
  then have "(let month = k;
              preceding = DAYS_BEFORE_MONTH ! nat month + (if month > 2 \<and> leap then 1 else 0)
          in if preceding > r
             then (let month = month - 1;
                       preceding = preceding - (DAYS_IN_MONTH ! nat month
                                     + (if month = 2 \<and> leap then 1 else 0))
                   in month_day_ok leap r month (r - preceding + 1))
             else month_day_ok leap r month (r - preceding + 1))"
  proof cases
    case 1 then show ?thesis using kr r
      by (simp add: month_day_ok_def DAYS_BEFORE_MONTH_def DAYS_IN_MONTH_def)
  next
    case 2 then show ?thesis using kr r
      by (simp add: month_day_ok_def DAYS_BEFORE_MONTH_def DAYS_IN_MONTH_def)
  next
    case 3 then show ?thesis using kr r
      by (simp add: month_day_ok_def DAYS_BEFORE_MONTH_def DAYS_IN_MONTH_def)
  next
    case 4 then show ?thesis using kr r
      by (simp add: month_day_ok_def DAYS_BEFORE_MONTH_def DAYS_IN_MONTH_def)
  next
    case 5 then show ?thesis using kr r
      by (simp add: month_day_ok_def DAYS_BEFORE_MONTH_def DAYS_IN_MONTH_def)
  next
    case 6 then show ?thesis using kr r
      by (simp add: month_day_ok_def DAYS_BEFORE_MONTH_def DAYS_IN_MONTH_def)
  next
    case 7 then show ?thesis using kr r
      by (simp add: month_day_ok_def DAYS_BEFORE_MONTH_def DAYS_IN_MONTH_def)
  next
    case 8 then show ?thesis using kr r
      by (simp add: month_day_ok_def DAYS_BEFORE_MONTH_def DAYS_IN_MONTH_def)
  next
    case 9 then show ?thesis using kr r
      by (simp add: month_day_ok_def DAYS_BEFORE_MONTH_def DAYS_IN_MONTH_def)
  next
    case 10 then show ?thesis using kr r
      by (simp add: month_day_ok_def DAYS_BEFORE_MONTH_def DAYS_IN_MONTH_def)
  next
    case 11 then show ?thesis using kr r
      by (simp add: month_day_ok_def DAYS_BEFORE_MONTH_def DAYS_IN_MONTH_def)
  next
    case 12 then show ?thesis using kr r
      by (simp add: month_day_ok_def DAYS_BEFORE_MONTH_def DAYS_IN_MONTH_def)
  qed
  then show ?thesis unfolding k_def .
qed

lemma month_of_day_in_year_cont:
  assumes r: "0 \<le> r" "r \<le> 364"
    and Q: "\<And>m d. month_day_ok leap r m d \<Longrightarrow> Q (y, m, d)"
  shows "Q (let month = (r + 50) div 32;
              preceding = DAYS_BEFORE_MONTH ! nat month + (if month > 2 \<and> leap then 1 else 0)
          in if preceding > r
             then (let month = month - 1;
                       preceding = preceding - (DAYS_IN_MONTH ! nat month
                                     + (if month = 2 \<and> leap then 1 else 0))
                   in (y, month, r - preceding + 1))
             else (y, month, r - preceding + 1))"
proof -
  define month where "month = (r + 50) div 32"
  define pre where
    "pre = DAYS_BEFORE_MONTH ! nat month + (if month > 2 \<and> leap then 1 else 0)"
  define pre' where
    "pre' = pre - (DAYS_IN_MONTH ! nat (month - 1) + (if month - 1 = 2 \<and> leap then 1 else 0))"
  have L: "if pre > r then month_day_ok leap r (month - 1) (r - pre' + 1)
           else month_day_ok leap r month (r - pre + 1)"
    using month_of_day_in_year [OF r, of leap] unfolding Let_def month_def pre_def pre'_def .
  have "Q (if pre > r then (y, month - 1, r - pre' + 1) else (y, month, r - pre + 1))"
  proof (cases "pre > r")
    case True
    with L have "month_day_ok leap r (month - 1) (r - pre' + 1)" by simp
    from Q [OF this] show ?thesis using True by simp
  next
    case False
    with L have "month_day_ok leap r month (r - pre + 1)" by simp
    from Q [OF this] show ?thesis using False by simp
  qed
  then show ?thesis unfolding Let_def month_def pre_def pre'_def .
qed

lemma days_before_year_split:
  assumes "0 \<le> b" "b \<le> 3" "0 \<le> c" "c \<le> 24" "0 \<le> e" "e \<le> 3"
  shows "days_before_year (400 * a + 100 * b + 4 * c + e + 1) =
           146097 * a + 36524 * b + 1461 * c + 365 * e"
proof -
  define y where "y = 400 * a + 100 * b + 4 * c + e"
  have d4: "y div 4 = 100 * a + 25 * b + c"
    by (rule int_div_pos_eq [where r = e]) (use assms in \<open>simp_all add: y_def\<close>)
  have d100: "y div 100 = 4 * a + b"
    by (rule int_div_pos_eq [where r = "4 * c + e"]) (use assms in \<open>simp_all add: y_def\<close>)
  have d400: "y div 400 = a"
    by (rule int_div_pos_eq [where r = "100 * b + 4 * c + e"])
       (use assms in \<open>simp_all add: y_def\<close>)
  have "days_before_year (y + 1) = y * 365 + y div 4 - y div 100 + y div 400"
    by (simp add: days_before_year_def Let_def)
  also have "\<dots> = 146097 * a + 36524 * b + 1461 * c + 365 * e"
    unfolding d4 d100 d400 by (simp add: y_def)
  finally show ?thesis by (simp add: y_def)
qed

lemma is_leap_split:
  assumes "0 \<le> b" "b \<le> 3" "0 \<le> c" "c \<le> 24" "0 \<le> e" "e \<le> 3"
  shows "is_leap (400 * a + 100 * b + 4 * c + e + 1) = (e = 3 \<and> (c \<noteq> 24 \<or> b = 3))"
proof -
  define y where "y = 400 * a + 100 * b + 4 * c + e + 1"
  have m4: "y mod 4 = (if e = 3 then 0 else e + 1)"
  proof (cases "e = 3")
    case True
    then have "y = 4 * (100 * a + 25 * b + c + 1) + 0" by (simp add: y_def)
    then have "y mod 4 = 0" by (intro int_mod_pos_eq [where q = "100 * a + 25 * b + c + 1"]) simp_all
    then show ?thesis using True by simp
  next
    case False
    then have "y mod 4 = e + 1"
      by (intro int_mod_pos_eq [where q = "100 * a + 25 * b + c"])
         (use assms in \<open>simp_all add: y_def\<close>)
    then show ?thesis using False by simp
  qed
  have m100: "(y mod 100 = 0) = (c = 24 \<and> e = 3)"
  proof (cases "c = 24 \<and> e = 3")
    case True
    then have "y mod 100 = 0"
      by (intro int_mod_pos_eq [where q = "4 * a + b + 1"]) (simp_all add: y_def)
    then show ?thesis using True by simp
  next
    case False
    then have "y mod 100 = 4 * c + e + 1"
      by (intro int_mod_pos_eq [where q = "4 * a + b"])
         (use assms in \<open>auto simp: y_def\<close>)
    then show ?thesis using False assms by auto
  qed
  have m400: "(y mod 400 = 0) = (b = 3 \<and> c = 24 \<and> e = 3)"
  proof (cases "b = 3 \<and> c = 24 \<and> e = 3")
    case True
    then have "y mod 400 = 0"
      by (intro int_mod_pos_eq [where q = "a + 1"]) (simp_all add: y_def)
    then show ?thesis using True by simp
  next
    case False
    then have "y mod 400 = 100 * b + 4 * c + e + 1"
      by (intro int_mod_pos_eq [where q = a])
         (use assms in \<open>auto simp: y_def\<close>)
    then show ?thesis using False assms by auto
  qed
  have "is_leap y = (e = 3 \<and> (c \<noteq> 24 \<or> b = 3))"
    unfolding is_leap_def m100 m400 using m4 assms by auto
  then show ?thesis by (simp add: y_def)
qed

lemma ord2ymd_correct:
  assumes "1 \<le> n" "n \<le> MAXORDINAL"
  shows "case ord2ymd n of (y, m, d) \<Rightarrow> check_date_fields y m d \<and> ymd2ord y m d = n"
proof -
  define n0 where "n0 = n - 1"
  define a where "a = n0 div 146097"
  define r1 where "r1 = n0 mod 146097"
  define b where "b = r1 div 36524"
  define r2 where "r2 = r1 mod 36524"
  define c where "c = r2 div 1461"
  define r3 where "r3 = r2 mod 1461"
  define e where "e = r3 div 365"
  define r4 where "r4 = r3 mod 365"
  have n0: "0 \<le> n0" "n0 \<le> 3652058" using assms by (simp_all add: n0_def MAXORDINAL_def)
  have e1: "n0 = 146097 * a + r1" "0 \<le> r1" "r1 < 146097" by (simp_all add: a_def r1_def)
  have e2: "r1 = 36524 * b + r2" "0 \<le> r2" "r2 < 36524" by (simp_all add: b_def r2_def)
  have e3: "r2 = 1461 * c + r3" "0 \<le> r3" "r3 < 1461" by (simp_all add: c_def r3_def)
  have e4: "r3 = 365 * e + r4" "0 \<le> r4" "r4 < 365" by (simp_all add: e_def r4_def)
  have ba: "0 \<le> a" "a \<le> 24" using e1 n0 by linarith+
  have bb: "0 \<le> b" "b \<le> 4" using e2 e1 by linarith+
  have bc: "0 \<le> c" "c \<le> 24" using e3 e2 by linarith+
  have be: "0 \<le> e" "e \<le> 4" using e4 e3 by linarith+
  have o: "ord2ymd n =
      (if e = 4 \<or> b = 4 then (a * 400 + 1 + b * 100 + c * 4 + e - 1, 12, 31)
       else (let leapyear = (e = 3 \<and> (c \<noteq> 24 \<or> b = 3));
                 month = (r4 + 50) div 32;
                 preceding = DAYS_BEFORE_MONTH ! nat month
                             + (if month > 2 \<and> leapyear then 1 else 0)
             in if preceding > r4
                then (let month = month - 1;
                          preceding = preceding - (DAYS_IN_MONTH ! nat month
                                        + (if month = 2 \<and> leapyear then 1 else 0))
                      in (a * 400 + 1 + b * 100 + c * 4 + e, month, r4 - preceding + 1))
                else (a * 400 + 1 + b * 100 + c * 4 + e, month, r4 - preceding + 1)))"
    unfolding ord2ymd_def Let_def n0_def a_def r1_def b_def r2_def c_def r3_def e_def r4_def
    by simp
  show ?thesis
  proof (cases "b = 4")
    case True
    then have z: "r2 = 0" "c = 0" "r3 = 0" "e = 0" "r4 = 0"
      using e1 e2 e3 e4 bc be by linarith+
    have a23: "a \<le> 23" using True z e1 e2 n0 by linarith
    have y: "a * 400 + 1 + b * 100 + c * 4 + e - 1 = 400 * a + 100 * 3 + 4 * 24 + 3 + 1"
      using True z by simp
    have dby: "days_before_year (400 * a + 100 * 3 + 4 * 24 + 3 + 1) =
                 146097 * a + 36524 * 3 + 1461 * 24 + 365 * 3"
      by (rule days_before_year_split) simp_all
    have lp: "is_leap (400 * a + 100 * 3 + 4 * 24 + 3 + 1)"
      using is_leap_split [of 3 24 3 a] by simp
    have nn: "n = 146097 * a + 146097" using True z e1 e2 by (simp add: n0_def)
    have o': "ord2ymd n = (400 * a + 100 * 3 + 4 * 24 + 3 + 1, 12, 31)"
      unfolding o using True z by simp
    show ?thesis
      unfolding o' using ba a23 dby lp nn
      by (simp add: check_date_fields_def ymd2ord_def days_in_month_def days_before_month_def
          DAYS_IN_MONTH_def DAYS_BEFORE_MONTH_def)
  next
    case False
    then have b3: "b \<le> 3" using bb by simp
    show ?thesis
    proof (cases "e = 4")
      case True
      then have z: "r4 = 0" using e4 e3 by linarith
      have c23: "c \<le> 23" using True e2 e3 e4 by linarith
      have y: "a * 400 + 1 + b * 100 + c * 4 + e - 1 = 400 * a + 100 * b + 4 * c + 3 + 1"
        using True by simp
      have dby: "days_before_year (400 * a + 100 * b + 4 * c + 3 + 1) =
                 146097 * a + 36524 * b + 1461 * c + 365 * 3"
        by (rule days_before_year_split) (use bb b3 bc in simp_all)
      have lp: "is_leap (400 * a + 100 * b + 4 * c + 3 + 1)"
        using is_leap_split [of b c 3 a] bb b3 bc c23 by simp
      have nn: "n = 146097 * a + 36524 * b + 1461 * c + 1461"
        using True z e1 e2 e3 e4 by (simp add: n0_def)
      have yr: "1 \<le> 400 * a + 100 * b + 4 * c + 3 + 1" "400 * a + 100 * b + 4 * c + 3 + 1 \<le> 9999"
        using ba bb b3 bc c23 by linarith+
      have o': "ord2ymd n = (400 * a + 100 * b + 4 * c + 3 + 1, 12, 31)"
        unfolding o using True by simp
      show ?thesis
        unfolding o' using yr dby lp nn
        by (simp add: check_date_fields_def ymd2ord_def days_in_month_def
            days_before_month_def DAYS_IN_MONTH_def DAYS_BEFORE_MONTH_def)
    next
      case e4': False
      then have e3': "e \<le> 3" using be by simp
      define Y where "Y = 400 * a + 100 * b + 4 * c + e + 1"
      define leap where "leap = (e = 3 \<and> (c \<noteq> 24 \<or> b = 3))"
      have y: "a * 400 + 1 + b * 100 + c * 4 + e = Y" by (simp add: Y_def)
      have dby: "days_before_year Y = 146097 * a + 36524 * b + 1461 * c + 365 * e"
        unfolding Y_def by (rule days_before_year_split) (use bb b3 bc be e3' in simp_all)
      have lp: "is_leap Y = leap"
        unfolding Y_def leap_def by (rule is_leap_split) (use bb b3 bc be e3' in simp_all)
      have nn: "n = days_before_year Y + r4 + 1"
        using e1 e2 e3 e4 dby by (simp add: n0_def)
      have yr: "1 \<le> Y" "Y \<le> 9999"
        using ba bb b3 bc be e3' e1 e2 e3 e4 n0 unfolding Y_def by linarith+
      have r: "0 \<le> r4" "r4 \<le> 364" using e4 by simp_all
      have fin: "check_date_fields Y m d \<and> ymd2ord Y m d = n" if "month_day_ok leap r4 m d" for m d
        using that yr nn lp
        by (auto simp: month_day_ok_def check_date_fields_def ymd2ord_def days_in_month_def
            days_before_month_def)
      have o': "ord2ymd n =
         (let month = (r4 + 50) div 32;
              preceding = DAYS_BEFORE_MONTH ! nat month + (if month > 2 \<and> leap then 1 else 0)
          in if preceding > r4
             then (let month = month - 1;
                       preceding = preceding - (DAYS_IN_MONTH ! nat month
                                     + (if month = 2 \<and> leap then 1 else 0))
                   in (Y, month, r4 - preceding + 1))
             else (Y, month, r4 - preceding + 1))"
        unfolding o y leap_def using False e4' by (simp only: Let_def if_False simp_thms)
      show ?thesis
        unfolding o'
        by (rule month_of_day_in_year_cont [OF r]) (use fin in simp)
    qed
  qed
qed

subsection \<open>Dates and text\<close>

lemma str_nat_one_digit: "n < 10 \<Longrightarrow> str_nat n = [digit_char n]"
  by (subst str_nat_rec) simp

lemma str_nat_two_digits:
  "10 \<le> n \<Longrightarrow> n < 100 \<Longrightarrow> str_nat n = [digit_char (n div 10), digit_char (n mod 10)]"
  by (subst str_nat_rec) (simp add: str_nat_one_digit)

lemma div_10_10: "(n :: nat) div 10 div 10 = n div 100"
  by (simp add: div_mult2_eq [symmetric])

lemma div_10_100: "(n :: nat) div 10 div 100 = n div 1000"
  by (simp add: div_mult2_eq [symmetric])

lemma str_nat_three_digits:
  "100 \<le> n \<Longrightarrow> n < 1000 \<Longrightarrow>
     str_nat n = [digit_char (n div 100), digit_char (n div 10 mod 10), digit_char (n mod 10)]"
  by (subst str_nat_rec) (simp add: str_nat_two_digits div_10_10)

lemma str_nat_four_digits:
  "1000 \<le> n \<Longrightarrow> n < 10000 \<Longrightarrow>
     str_nat n = [digit_char (n div 1000), digit_char (n div 100 mod 10),
                  digit_char (n div 10 mod 10), digit_char (n mod 10)]"
  by (subst str_nat_rec) (simp add: str_nat_three_digits div_10_10 div_10_100)

lemma digit_char_0: "digit_char 0 = CHR ''0''"
  by (simp add: digit_char_def char_of_eq_iff)

lemma replicate_small:
  "replicate 3 c = [c, c, c]" "replicate 2 c = [c, c]"
  by (simp_all add: numeral_eq_Suc)

lemma zero_pad_2:
  "n < 100 \<Longrightarrow> zero_pad 2 (str_nat n) = [digit_char (n div 10), digit_char (n mod 10)]"
  by (cases "n < 10")
     (simp_all add: zero_pad_def str_nat_one_digit str_nat_two_digits digit_char_0)

lemma decimal_expansion:
  "n = 10 * x + m0 \<Longrightarrow> x = 10 * y + m1 \<Longrightarrow> y = 10 * z + m2
     \<Longrightarrow> 10 * (10 * (10 * z + m2) + m1) + m0 = (n :: nat)"
  by simp

lemma digits_value_four:
  "digits_value [digit_char (n div 1000), digit_char (n div 100 mod 10),
                 digit_char (n div 10 mod 10), digit_char (n mod 10)] = n" if "n < 10000"
proof -
  have "n div 1000 < 10" using that by simp
  moreover have "10 * (10 * (10 * (n div 1000) + n div 100 mod 10) + n div 10 mod 10) + n mod 10 = n"
  proof -
    have a: "n = 10 * (n div 10) + n mod 10" by simp
    have b: "n div 10 = 10 * (n div 100) + n div 10 mod 10"
      using div_mult_mod_eq [of "n div 10" 10] by (simp add: div_10_10)
    have c: "n div 100 = 10 * (n div 1000) + n div 100 mod 10"
      using div_mult_mod_eq [of "n div 100" 10] by (simp add: div_mult2_eq [symmetric])
    show ?thesis by (rule decimal_expansion [OF a b c])
  qed
  ultimately show ?thesis by (simp add: digits_value_def)
qed

lemma match_month_day_two_digits:
  assumes m: "(a = 0 \<and> 1 \<le> b \<and> b \<le> 9) \<or> (a = 1 \<and> b \<le> 2)"
    and d: "(p = 0 \<and> 1 \<le> q \<and> q \<le> 9) \<or> (1 \<le> p \<and> p \<le> 2 \<and> q \<le> 9) \<or> (p = 3 \<and> q \<le> 1)"
  shows "\<exists>rest. match_month_day
            ([digit_char a, digit_char b] @ ''-'' @ [digit_char p, digit_char q])
          = (int (10 * a + b), int (10 * p + q), []) # rest"
proof -
  have lt: "a < 10" "b < 10" "p < 10" "q < 10" using m d by auto
  have md: "\<exists>rest. match_day [digit_char p, digit_char q] = (int (10 * p + q), []) # rest"
    using d lt by (auto simp: match_day_def is_digit_in_def digit_char_eq)
  then obtain rd where rd: "match_day [digit_char p, digit_char q] = (int (10 * p + q), []) # rd"
    by blast
  show ?thesis
    using m lt
    by (auto simp: match_month_day_def match_month_def is_digit_in_def digit_char_eq rd)
qed

lemma month_digits:
  "1 \<le> m \<Longrightarrow> m \<le> 12 \<Longrightarrow>
     (m div 10 = 0 \<and> 1 \<le> m mod 10 \<and> m mod 10 \<le> 9) \<or> (m div 10 = 1 \<and> m mod 10 \<le> 2)"
  for m :: nat
  by arith

lemma day_digits:
  "1 \<le> d \<Longrightarrow> d \<le> 31 \<Longrightarrow>
     (d div 10 = 0 \<and> 1 \<le> d mod 10 \<and> d mod 10 \<le> 9)
     \<or> (1 \<le> d div 10 \<and> d div 10 \<le> 2 \<and> d mod 10 \<le> 9)
     \<or> (d div 10 = 3 \<and> d mod 10 \<le> 1)"
  for d :: nat
  by arith

lemma days_in_month_le_31: "1 \<le> m \<Longrightarrow> m \<le> 12 \<Longrightarrow> days_in_month y m \<le> 31"
proof -
  assume "1 \<le> m" "m \<le> 12"
  then consider "m = 1" | "m = 2" | "m = 3" | "m = 4" | "m = 5" | "m = 6" | "m = 7" | "m = 8"
    | "m = 9" | "m = 10" | "m = 11" | "m = 12" by atomize_elim arith
  then show ?thesis
    by cases (simp_all add: days_in_month_def DAYS_IN_MONTH_def)
qed

lemma strftime_ymd_form:
  assumes "valid_date d" "1000 \<le> date_year d"
  obtains y m dd where
    "1 \<le> m" "m \<le> 12" "1 \<le> dd" "dd \<le> 31" "1000 \<le> y" "y < 10000"
    "check_date_fields (int y) (int m) (int dd)"
    "ymd2ord (int y) (int m) (int dd) = toordinal d"
    "strftime_ymd d =
       [digit_char (y div 1000), digit_char (y div 100 mod 10), digit_char (y div 10 mod 10),
        digit_char (y mod 10)] @ ''-'' @ [digit_char (m div 10), digit_char (m mod 10)] @ ''-''
       @ [digit_char (dd div 10), digit_char (dd mod 10)]"
proof -
  obtain Y M D where o: "ord2ymd (toordinal d) = (Y, M, D)" by (cases "ord2ymd (toordinal d)")
  from assms have r: "1 \<le> toordinal d" "toordinal d \<le> MAXORDINAL"
    by (simp_all add: valid_date_def)
  from ord2ymd_correct [OF r] o
  have c: "check_date_fields Y M D" and i: "ymd2ord Y M D = toordinal d" by simp_all
  from c have b: "1 \<le> Y" "Y \<le> 9999" "1 \<le> M" "M \<le> 12" "1 \<le> D" "D \<le> days_in_month Y M"
    by (simp_all add: check_date_fields_def)
  have Y1000: "1000 \<le> Y" using assms(2) by (simp add: date_year_def o)
  have D31: "D \<le> 31" using days_in_month_le_31 [OF b(3) b(4), of Y] b(6) by linarith
  define y m dd where "y = nat Y" and "m = nat M" and "dd = nat D"
  have bk: "int y = Y" "int m = M" "int dd = D" using b by (simp_all add: y_def m_def dd_def)
  have lt: "1000 \<le> y" "y < 10000" "m < 100" "dd < 100"
    using b D31 Y1000 by (simp_all add: y_def m_def dd_def)
  have s: "strftime_ymd d =
       [digit_char (y div 1000), digit_char (y div 100 mod 10), digit_char (y div 10 mod 10),
        digit_char (y mod 10)] @ ''-'' @ [digit_char (m div 10), digit_char (m mod 10)] @ ''-''
       @ [digit_char (dd div 10), digit_char (dd mod 10)]"
    unfolding strftime_ymd_def o
    by (simp add: y_def [symmetric] m_def [symmetric] dd_def [symmetric]
        str_nat_four_digits [OF lt(1) lt(2)] zero_pad_2 [OF lt(3)] zero_pad_2 [OF lt(4)])
  show ?thesis
  proof (rule that [of m dd y])
    show "1 \<le> m" "m \<le> 12" "1 \<le> dd" "dd \<le> 31" "1000 \<le> y" "y < 10000"
      using b D31 Y1000 by (simp_all add: y_def m_def dd_def)
    show "check_date_fields (int y) (int m) (int dd)" using c by (simp add: bk)
    show "ymd2ord (int y) (int m) (int dd) = toordinal d" using i by (simp add: bk)
    show "strftime_ymd d =
       [digit_char (y div 1000), digit_char (y div 100 mod 10), digit_char (y div 10 mod 10),
        digit_char (y mod 10)] @ ''-'' @ [digit_char (m div 10), digit_char (m mod 10)] @ ''-''
       @ [digit_char (dd div 10), digit_char (dd mod 10)]" by (rule s)
  qed
qed

lemma strptime_strftime:
  assumes "valid_date d" "1000 \<le> date_year d"
  shows "strptime_ymd (strftime_ymd d) = Inr d"
proof -
  from assms obtain y m dd where
    b: "1 \<le> m" "m \<le> 12" "1 \<le> dd" "dd \<le> 31" "1000 \<le> y" "y < 10000"
    and c: "check_date_fields (int y) (int m) (int dd)"
    and i: "ymd2ord (int y) (int m) (int dd) = toordinal d"
    and s: "strftime_ymd d =
       [digit_char (y div 1000), digit_char (y div 100 mod 10), digit_char (y div 10 mod 10),
        digit_char (y mod 10)] @ ''-'' @ [digit_char (m div 10), digit_char (m mod 10)] @ ''-''
       @ [digit_char (dd div 10), digit_char (dd mod 10)]"
    by (rule strftime_ymd_form)
  obtain rest where mm: "match_month_day
            ([digit_char (m div 10), digit_char (m mod 10)] @ ''-''
             @ [digit_char (dd div 10), digit_char (dd mod 10)])
          = (int (10 * (m div 10) + m mod 10), int (10 * (dd div 10) + dd mod 10), []) # rest"
    using match_month_day_two_digits [OF month_digits [OF b(1) b(2)] day_digits [OF b(3) b(4)]]
    by blast
  have mm': "match_month_day
            [digit_char (m div 10), digit_char (m mod 10), CHR ''-'',
             digit_char (dd div 10), digit_char (dd mod 10)]
          = (int m, int dd, []) # rest"
    using mm by simp
  have dg: "y div 1000 < 10" "y div 100 mod 10 < 10" "y div 10 mod 10 < 10" "y mod 10 < 10"
    using b(6) by simp_all
  have "strptime_ymd (strftime_ymd d) = Inr (Date (toordinal d))"
    unfolding s strptime_ymd_def
    using dg c i by (simp add: mm' digits_value_four [OF b(6)])
  then show ?thesis by simp
qed

lemma strftime_ymd_chars:
  assumes "valid_date d" "1000 \<le> date_year d"
  shows "strftime_ymd d \<noteq> []" "is_digit (hd (strftime_ymd d))"
    "\<forall>c \<in> set (strftime_ymd d). is_digit c \<or> c = CHR ''-''"
proof -
  from assms obtain y m dd where
    b: "1 \<le> m" "m \<le> 12" "1 \<le> dd" "dd \<le> 31" "1000 \<le> y" "y < 10000"
    and s: "strftime_ymd d =
       [digit_char (y div 1000), digit_char (y div 100 mod 10), digit_char (y div 10 mod 10),
        digit_char (y mod 10)] @ ''-'' @ [digit_char (m div 10), digit_char (m mod 10)] @ ''-''
       @ [digit_char (dd div 10), digit_char (dd mod 10)]"
    by (rule strftime_ymd_form)
  have dg: "y div 1000 < 10" "y div 100 mod 10 < 10" "y div 10 mod 10 < 10" "y mod 10 < 10"
    "m div 10 < 10" "m mod 10 < 10" "dd div 10 < 10" "dd mod 10 < 10"
    using b by simp_all
  show "strftime_ymd d \<noteq> []" by (simp add: s)
  show "is_digit (hd (strftime_ymd d))" using dg by (simp add: s)
  show "\<forall>c \<in> set (strftime_ymd d). is_digit c \<or> c = CHR ''-''" using dg by (auto simp: s)
qed

subsection \<open>Saving and loading again\<close>

lemma record_line_body:
  "record_line d n c = (strftime_ymd d @ '','' @ int_text c @ '','' @ n) @ [CHR 0x0A]"
  by (simp add: record_line_def)

lemma record_body_no_newline:
  assumes "record_ok (d, n, c)"
  shows "CHR 0x0A \<notin> set (strftime_ymd d @ '','' @ int_text c @ '','' @ n)"
    "CHR 0x0D \<notin> set (strftime_ymd d @ '','' @ int_text c @ '','' @ n)"
proof -
  from assms have v: "valid_date d" "1000 \<le> date_year d" and ok: "diary_name_ok n"
    by (simp_all add: record_ok_def)
  show "CHR 0x0A \<notin> set (strftime_ymd d @ '','' @ int_text c @ '','' @ n)"
    using strftime_ymd_chars(3) [OF v] int_text_chars [of _ c] ok
    by (auto simp: diary_name_ok_def dest: is_digit_not_special)
  show "CHR 0x0D \<notin> set (strftime_ymd d @ '','' @ int_text c @ '','' @ n)"
    using strftime_ymd_chars(3) [OF v] int_text_chars [of _ c] ok
    by (auto simp: diary_name_ok_def dest: is_digit_not_special)
qed

lemma parse_record_line:
  assumes "record_ok (d, n, c)"
  shows "parse_line (record_line d n c) = Inr (d, c, n)"
proof -
  from assms have v: "valid_date d" "1000 \<le> date_year d" and ok: "diary_name_ok n"
    and small: "\<bar>c\<bar> < 10 ^ int_max_str_digits"
    by (simp_all add: record_ok_def)
  define body where "body = strftime_ymd d @ '','' @ int_text c @ '','' @ n"
  have ne: "body \<noteq> []" by (simp add: body_def)
  have "hd body = hd (strftime_ymd d)"
    using strftime_ymd_chars(1) [OF v] by (simp add: body_def)
  then have h: "\<not> is_space (hd body)"
    using strftime_ymd_chars(2) [OF v] by (simp add: is_digit_not_special)
  have l: "\<not> is_space (last body)"
  proof (cases "n = []")
    case True
    then show ?thesis by (simp add: body_def is_space_def)
  next
    case False
    then show ?thesis using ok by (simp add: body_def diary_name_ok_def)
  qed
  have st: "strip (record_line d n c) = body"
    unfolding record_line_body body_def [symmetric] by (rule strip_line [OF ne h l])
  have c1: "CHR '','' \<notin> set (strftime_ymd d)"
    using strftime_ymd_chars(3) [OF v] by (auto dest: is_digit_not_special)
  have c2: "CHR '','' \<notin> set (int_text c)"
    using int_text_chars [of _ c] by (auto dest: is_digit_not_special)
  have c3: "CHR '','' \<notin> set n" using ok by (simp add: diary_name_ok_def)
  have sp: "split_on (CHR '','') body = [strftime_ymd d, int_text c, n]"
    using split_on_three [OF c1 c2 c3] by (simp add: body_def)
  show ?thesis
    by (simp add: parse_line_def st sp strptime_strftime [OF v] py_int_int_text [OF small])
qed

lemma load_lines_saved:
  assumes "\<forall>r \<in> set rs. record_ok r"
  shows "load_lines s (map (\<lambda>(d, n, c). record_line d n c) rs) =
           (foldl (\<lambda>s (d, n, c). store_setitem s d n c) s rs, None)"
  using assms
proof (induction rs arbitrary: s)
  case Nil
  then show ?case by simp
next
  case (Cons r rs)
  obtain d n c where r: "r = (d, n, c)" by (cases r)
  with Cons.prems have "record_ok (d, n, c)" by simp
  then have "parse_line (record_line d n c) = Inr (d, c, n)" by (rule parse_record_line)
  then show ?case using Cons by (simp add: r)
qed

lemma saved_file_lines:
  assumes "\<forall>r \<in> set rs. record_ok r"
  shows "file_lines (universal_newlines (concat (map (\<lambda>(d, n, c). record_line d n c) rs))) =
           map (\<lambda>(d, n, c). record_line d n c) rs"
proof -
  define bodies where
    "bodies = map (\<lambda>(d, n, c). strftime_ymd d @ '','' @ int_text c @ '','' @ n) rs"
  have t: "concat (map (\<lambda>(d, n, c). record_line d n c) rs) =
             concat (map (\<lambda>b. b @ [CHR 0x0A]) bodies)"
    by (simp add: bodies_def record_line_body comp_def case_prod_unfold)
  have m: "map (\<lambda>(d, n, c). record_line d n c) rs = map (\<lambda>b. b @ [CHR 0x0A]) bodies"
    by (simp add: bodies_def record_line_body comp_def case_prod_unfold)
  have nl: "\<forall>b \<in> set bodies. CHR 0x0A \<notin> set b"
    and cr: "\<forall>b \<in> set bodies. CHR 0x0D \<notin> set b"
    using assms record_body_no_newline unfolding bodies_def by fastforce+
  have "CHR 0x0D \<notin> set (concat (map (\<lambda>b. b @ [CHR 0x0A]) bodies))" using cr by auto
  then have "universal_newlines (concat (map (\<lambda>b. b @ [CHR 0x0A]) bodies)) =
               concat (map (\<lambda>b. b @ [CHR 0x0A]) bodies)"
    by (rule universal_newlines_id)
  then show ?thesis unfolding t m by (simp add: file_lines_concat [OF nl])
qed

text \<open>The loops of the save write the text of the store when every count can be printed.\<close>

lemma save_diaries_text:
  assumes "\<forall>(n, c) \<in> set ds. \<bar>c\<bar> < 10 ^ int_max_str_digits"
  shows "save_diaries d ds written =
           (written @ concat (map (\<lambda>(n, c). record_line d n c) ds), None)"
  using assms
proof (induction ds arbitrary: written)
  case Nil
  then show ?case by simp
next
  case (Cons x ds)
  obtain n c where x: "x = (n, c)" by (cases x)
  with Cons.prems have "\<bar>c\<bar> < 10 ^ int_max_str_digits" by simp
  then have "save_line d n c = Inr (record_line d n c)"
    by (simp add: save_line_def str_int_small record_line_def)
  then show ?case using Cons by (simp add: x)
qed

lemma save_dates_text:
  assumes "\<forall>(d, ds) \<in> set s. \<forall>(n, c) \<in> set ds. \<bar>c\<bar> < 10 ^ int_max_str_digits"
  shows "save_dates s written = (written @ store_text s, None)"
  using assms
proof (induction s arbitrary: written)
  case Nil
  then show ?case by (simp add: store_text_def store_records_def)
next
  case (Cons x s)
  obtain d ds where x: "x = (d, ds)" by (cases x)
  with Cons.prems have small: "\<forall>(n, c) \<in> set ds. \<bar>c\<bar> < 10 ^ int_max_str_digits" by simp
  have t: "store_text ((d, ds) # s) = concat (map (\<lambda>(n, c). record_line d n c) ds) @ store_text s"
    by (simp add: store_text_def store_records_def comp_def case_prod_unfold)
  show ?case
    using Cons.IH [of "written @ concat (map (\<lambda>(n, c). record_line d n c) ds)"] Cons.prems
    by (simp add: x save_diaries_text [OF small] t)
qed

lemma submit_data_save_text:
  assumes "well_formed_store s"
  shows "submit_data_save s = (store_text s, None)"
proof -
  have "\<forall>(d, ds) \<in> set s. \<forall>(n, c) \<in> set ds. \<bar>c\<bar> < 10 ^ int_max_str_digits"
    using assms by (auto simp: well_formed_store_def)
  from save_dates_text [OF this, of "[]"] show ?thesis by (simp add: submit_data_save_def)
qed

lemma store_records_ok:
  assumes "well_formed_store s" "years_from_1000 s" "diary_names_ok s"
  shows "\<forall>r \<in> set (store_records s). record_ok r"
  using assms
  by (fastforce simp: well_formed_store_def years_from_1000_def diary_names_ok_def
      store_records_def record_ok_def)

lemma store_setitem_map_of:
  "map_of (store_setitem s d n c) =
     (map_of s)(d \<mapsto> dict_setitem (case map_of s d of None \<Rightarrow> [] | Some ds \<Rightarrow> ds) n c)"
  by (cases "map_of s d")
     (simp_all add: store_setitem_def defaultdict_getitem_def dict_setitem_def update_conv')

lemma store_lookup_setitem:
  "store_lookup (store_setitem s d n c) d' n' =
     (if d' = d \<and> n' = n then Some c else store_lookup s d' n')"
  by (cases "map_of s d")
     (auto simp: store_lookup_def store_setitem_map_of dict_setitem_def update_conv')

lemma records_lookup_snoc:
  "records_lookup (rs @ [(d', n', c')]) d n =
     (if d = d' \<and> n = n' then Some c' else records_lookup rs d n)"
  by (simp add: records_lookup_def)

text \<open>Assigning the records in order keeps, for every date and diary, the count of the
  last record for them.\<close>

lemma store_lookup_foldl:
  "store_lookup (foldl (\<lambda>s (d, n, c). store_setitem s d n c) s0 rs) d n =
     (case records_lookup rs d n of Some c \<Rightarrow> Some c | None \<Rightarrow> store_lookup s0 d n)"
proof (induction rs rule: rev_induct)
  case Nil
  then show ?case by (simp add: records_lookup_def)
next
  case (snoc r rs)
  obtain d' n' c' where r: "r = (d', n', c')" by (cases r)
  show ?case
    unfolding r records_lookup_snoc using snoc.IH
    by (simp add: store_lookup_setitem)
qed

lemma inner_records_map_of:
  "map_of (map (\<lambda>(d, n, c). ((d, n), c)) (map (\<lambda>(n, c). (d', n, c)) ds)) (d, n) =
     (if d = d' then map_of ds n else None)"
  by (induction ds) auto

lemma store_records_map_of:
  assumes "distinct (map fst s)"
  shows "map_of (map (\<lambda>(d, n, c). ((d, n), c)) (store_records s)) (d, n) = store_lookup s d n"
  using assms
proof (induction s)
  case Nil
  then show ?case by (simp add: store_records_def store_lookup_def)
next
  case (Cons x s)
  obtain d' ds where x: "x = (d', ds)" by (cases x)
  have dist: "distinct (map fst s)" and notin: "d' \<notin> fst ` set s" using Cons.prems by (simp_all add: x)
  have rec: "store_records ((d', ds) # s) = map (\<lambda>(n, c). (d', n, c)) ds @ store_records s"
    by (simp add: store_records_def)
  have none: "map_of s d' = None" using notin by (simp add: map_of_eq_None_iff)
  have "map_of (map (\<lambda>(d, n, c). ((d, n), c)) (store_records ((d', ds) # s))) (d, n) =
          (case (if d = d' then map_of ds n else None) of
             None \<Rightarrow> map_of (map (\<lambda>(d, n, c). ((d, n), c)) (store_records s)) (d, n)
           | Some c \<Rightarrow> Some c)"
    by (simp only: rec map_append map_of_append map_add_def inner_records_map_of)
  also have "\<dots> = store_lookup ((d', ds) # s) d n"
    using Cons.IH [OF dist] none
    by (cases "d = d'") (simp_all add: store_lookup_def split: option.splits)
  finally show ?case by (simp only: x)
qed

lemma store_records_keys:
  "(d, n, c) \<in> set (store_records s) \<Longrightarrow> d \<in> fst ` set s"
  by (induction s) (auto simp: store_records_def)

lemma store_records_distinct:
  assumes "well_formed_store s"
  shows "distinct (map (\<lambda>(d, n, c). (d, n)) (store_records s))"
  using assms
proof (induction s)
  case Nil
  then show ?case by (simp add: store_records_def)
next
  case (Cons x s)
  obtain d' ds where x: "x = (d', ds)" by (cases x)
  have wf: "well_formed_store s" and notin: "d' \<notin> fst ` set s" and dd: "distinct (map fst ds)"
    using Cons.prems by (simp_all add: x well_formed_store_def)
  have rec: "store_records ((d', ds) # s) = map (\<lambda>(n, c). (d', n, c)) ds @ store_records s"
    by (simp add: store_records_def)
  have k1: "map (\<lambda>(d, n, c). (d, n)) (map (\<lambda>(n, c). (d', n, c)) ds) = map (\<lambda>n. (d', n)) (map fst ds)"
    by (simp add: comp_def case_prod_unfold)
  have d1: "distinct (map (\<lambda>(d, n, c). (d, n)) (map (\<lambda>(n, c). (d', n, c)) ds))"
    unfolding k1 using dd by (simp add: distinct_map inj_on_def)
  have disj: "set (map (\<lambda>(d, n, c). (d, n)) (map (\<lambda>(n, c). (d', n, c)) ds))
                \<inter> set (map (\<lambda>(d, n, c). (d, n)) (store_records s)) = {}"
  proof -
    have "d \<noteq> d'" if "(d, n, c) \<in> set (store_records s)" for d n c
      using store_records_keys [OF that] notin by auto
    then show ?thesis unfolding k1 by auto
  qed
  show ?case using Cons.IH [OF wf] d1 disj by (simp add: x rec)
qed

lemma map_of_rev_distinct:
  assumes "distinct (map fst xs)"
  shows "map_of (rev xs) = map_of xs"
proof -
  have "distinct (map fst (rev xs))" using assms by (simp add: rev_map [symmetric])
  then have "(map_of (rev xs) = map_of xs) = (set (rev xs) = set xs)"
    using assms by (rule map_of_inject_set)
  then show ?thesis by simp
qed

lemma store_records_lookup:
  assumes "well_formed_store s"
  shows "records_lookup (store_records s) d n = store_lookup s d n"
proof -
  have ds: "distinct (map fst s)" using assms by (simp add: well_formed_store_def)
  have "map fst (map (\<lambda>(d, n, c). ((d, n), c)) (store_records s)) =
          map (\<lambda>(d, n, c). (d, n)) (store_records s)"
    by (simp add: comp_def case_prod_unfold)
  then have "distinct (map fst (map (\<lambda>(d, n, c). ((d, n), c)) (store_records s)))"
    using store_records_distinct [OF assms] by (simp only:)
  then have "map_of (rev (map (\<lambda>(d, n, c). ((d, n), c)) (store_records s))) =
               map_of (map (\<lambda>(d, n, c). ((d, n), c)) (store_records s))"
    by (rule map_of_rev_distinct)
  then show ?thesis
    unfolding records_lookup_def using store_records_map_of [OF ds, of d n] by (simp only:)
qed

lemma count_below_limit: "c < 10 \<Longrightarrow> (c :: int) < 10 ^ int_max_str_digits"
proof -
  assume a: "c < 10"
  have "(10 :: int) ^ 1 \<le> 10 ^ int_max_str_digits"
    by (rule power_increasing) (simp_all add: int_max_str_digits_def)
  with a show ?thesis by simp
qed

text \<open>Claim C4, as amended. For every record store whose dates are of year 1000 or
  later, whose counts are integers as \<^verbatim>\<open>int()\<close> yields them (at most
  \<open>int_max_str_digits\<close> digits), and in which no diary name contains a comma or a line
  break or ends in white space, the save writes one "YYYY-MM-DD,count,diary" line for
  every date and diary (the file overwritten), and loading that file succeeds and gives a
  store with the same count for every date and diary.\<close>

theorem save_load_round_trip:
  assumes "well_formed_store s" "years_from_1000 s" "diary_names_ok s"
  shows "submit_data_save s = (store_text s, None)
     \<and> (\<exists>s'. load_data_from_file str_of old filename (Opened (store_text s) None) =
               (s', Printed (''Data successfully loaded from '' @ filename @ ''.''))
             \<and> (\<forall>d n. store_lookup s' d n = store_lookup s d n))"
proof -
  define rs where "rs = store_records s"
  have ok: "\<forall>r \<in> set rs. record_ok r"
    unfolding rs_def using assms by (rule store_records_ok)
  have lines: "file_lines (universal_newlines (store_text s)) =
                 map (\<lambda>(d, n, c). record_line d n c) rs"
    unfolding store_text_def rs_def [symmetric] using ok by (rule saved_file_lines)
  define s' where "s' = foldl (\<lambda>s (d, n, c). store_setitem s d n c) [] rs"
  have ld: "load_lines [] (map (\<lambda>(d, n, c). record_line d n c) rs) = (s', None)"
    unfolding s'_def using ok by (rule load_lines_saved)
  have res: "load_data_from_file str_of old filename (Opened (store_text s) None) =
               (s', Printed (''Data successfully loaded from '' @ filename @ ''.''))"
    by (simp add: load_data_from_file_def lines ld)
  have "store_lookup s' d n = store_lookup s d n" for d n
    unfolding s'_def store_lookup_foldl rs_def store_records_lookup [OF assms(1)]
    by (simp add: store_lookup_def split: option.splits)
  with res submit_data_save_text [OF assms(1)] show ?thesis by blast
qed

theorem save_load_round_trip_witness:
  "well_formed_store [(Date 738886, [(''a'', 5), (''b c'', - 3)]), (Date 738887, [(''a'', 0)])]
   \<and> years_from_1000 [(Date 738886, [(''a'', 5), (''b c'', - 3)]), (Date 738887, [(''a'', 0)])]
   \<and> diary_names_ok [(Date 738886, [(''a'', 5), (''b c'', - 3)]), (Date 738887, [(''a'', 0)])]
   \<and> submit_data_save [(Date 738886, [(''a'', 5), (''b c'', - 3)]), (Date 738887, [(''a'', 0)])]
       = (''2024-01-01,5,a'' @ [CHR 0x0A] @ ''2024-01-01,-3,b c'' @ [CHR 0x0A]
          @ ''2024-01-02,0,a'' @ [CHR 0x0A], None)
   \<and> (\<exists>s'. load_data_from_file (\<lambda>e. ''error'') [] ''article_data.txt''
              (Opened (''2024-01-01,5,a'' @ [CHR 0x0A] @ ''2024-01-01,-3,b c'' @ [CHR 0x0A]
                       @ ''2024-01-02,0,a'' @ [CHR 0x0A]) None) =
               (s', Printed (''Data successfully loaded from '' @ ''article_data.txt'' @ ''.''))
             \<and> (\<forall>d n. store_lookup s' d n =
                   store_lookup
                     [(Date 738886, [(''a'', 5), (''b c'', - 3)]), (Date 738887, [(''a'', 0)])]
                     d n))"
proof -
  define s :: store where
    "s = [(Date 738886, [(''a'', 5), (''b c'', - 3)]), (Date 738887, [(''a'', 0)])]"
  have w: "well_formed_store s"
    by (simp add: s_def well_formed_store_def valid_date_def MAXORDINAL_def count_below_limit)
  have y: "years_from_1000 s"
    unfolding s_def by code_simp
  have n: "diary_names_ok s"
    by (simp add: s_def diary_names_ok_def diary_name_ok_def is_space_def)
  have t: "store_text s = ''2024-01-01,5,a'' @ [CHR 0x0A] @ ''2024-01-01,-3,b c'' @ [CHR 0x0A]
          @ ''2024-01-02,0,a'' @ [CHR 0x0A]"
    unfolding s_def by code_simp
  from save_load_round_trip [OF w y n, of "\<lambda>e. ''error''" "[]" "''article_data.txt''"] w y n
  show ?thesis unfolding t unfolding s_def by blast
qed

text \<open>A diary name that ends in a space contains no comma, yet it comes back without the
  space: the loaded store has no count for the name that was saved. And the last day of
  year 999 is written with a three-digit year, which the load does not read back.\<close>

theorem save_load_counterexample:
  "submit_data_save [(Date 738886, [(''b '', 5)])] = (''2024-01-01,5,b '' @ [CHR 0x0A], None)
   \<and> load_data_from_file (\<lambda>e. ''error'') [] ''article_data.txt''
       (Opened (''2024-01-01,5,b '' @ [CHR 0x0A]) None) =
     ([(Date 738886, [(''b'', 5)])],
      Printed ''Data successfully loaded from article_data.txt.'')
   \<and> store_lookup [(Date 738886, [(''b '', 5)])] (Date 738886) ''b '' = Some 5
   \<and> store_lookup [(Date 738886, [(''b'', 5)])] (Date 738886) ''b '' = None
   \<and> submit_data_save [(Date 364877, [(''a'', 5)])] = (''999-12-31,5,a'' @ [CHR 0x0A], None)
   \<and> load_data_from_file (\<lambda>e. ''error'') [] ''article_data.txt''
       (Opened (''999-12-31,5,a'' @ [CHR 0x0A]) None) =
     ([], Showerror ''Error'' ''Failed to load data from file: error'')"
  by code_simp

subsection \<open>Loading the backing file\<close>





text \<open>A line carries a record or is malformed, never both.\<close>

lemma malformed_line_iff: "malformed_line l \<longleftrightarrow> \<not> (\<exists>r. line_record l r)"
  by (auto simp: malformed_line_def line_record_def isl_def split: list.splits sum.splits)
     (metis sum.exhaust)+








text \<open>A small file whose bytes do not decode raises in the first read, before any line:
  the store is empty.\<close>

lemma load_undecodable_small_file:
  "load_data_from_file str_of old filename (Opened [] (Some UnicodeDecodeError)) =
     ([], Showerror ''Error'' (''Failed to load data from file: '' @ str_of UnicodeDecodeError))"
  by (simp add: load_data_from_file_def)

end
